theory Spec2Isabelle
  imports Complex_Main
begin

section \<open>Python and numpy primitives used by the sources\<close>

text \<open>
  Floating-point numbers are modelled as real numbers, so every result below is about the
  exact arithmetic the floating-point code approximates. The places where numpy produces
  NaN or an infinity are written out where they occur. Exceptions are values of the type
  \<open>error\<close>; a fallible function returns \<open>error + 'a\<close>, with \<open>Inl\<close> for the exception
  raised.
\<close>

datatype error = ValueError | IndexError | ZeroDivisionError | TypeError | RuntimeError

text \<open>Python's \<open>int(x)\<close> on a float truncates towards zero.\<close>

definition pyint :: "real \<Rightarrow> int" where
  "pyint x = (if 0 \<le> x then \<lfloor>x\<rfloor> else \<lceil>x\<rceil>)"

text \<open>\<open>numpy.round\<close> rounds to the nearest integer, a tie to the even neighbour.\<close>

definition rint :: "real \<Rightarrow> int" where
  "rint x =
     (let f = \<lfloor>x\<rfloor>; d = x - of_int f in
      if d < 1 / 2 then f else if 1 / 2 < d then f + 1
      else if even f then f else f + 1)"

text \<open>\<open>range(a, b)\<close> and \<open>numpy.arange(a, b)\<close> on integers: \<open>a, a+1, ..., b-1\<close>.\<close>

definition arange :: "int \<Rightarrow> int \<Rightarrow> int list" where
  "arange a b = [a..b - 1]"

text \<open>Indexing a Python list: a negative index counts from the end, an index out of
  range raises \<open>IndexError\<close>.\<close>

definition pyget :: "'a list \<Rightarrow> int \<Rightarrow> error + 'a" where
  "pyget xs i =
     (if 0 \<le> i \<and> i < int (length xs) then Inr (xs ! nat i)
      else if i < 0 \<and> - int (length xs) \<le> i then Inr (xs ! nat (int (length xs) + i))
      else Inl IndexError)"

text \<open>A loop that computes one value per element and stops at the first exception.\<close>

fun collect :: "('a \<Rightarrow> error + 'b) \<Rightarrow> 'a list \<Rightarrow> error + 'b list" where
  "collect f [] = Inr []"
| "collect f (x # xs) =
     (case f x of
        Inl e \<Rightarrow> Inl e
      | Inr y \<Rightarrow> (case collect f xs of Inl e \<Rightarrow> Inl e | Inr ys \<Rightarrow> Inr (y # ys)))"

text \<open>
  Float division of a numpy array by a scalar: a zero divisor gives NaN for \<open>0/0\<close> and
  a signed infinity otherwise (numpy only warns), so a quotient is a value of
  \<open>npfloat\<close>.
\<close>

datatype npfloat = Finite real | PosInf | NegInf | NaN

definition np_div :: "real \<Rightarrow> real \<Rightarrow> npfloat" where
  "np_div x t =
     (if t \<noteq> 0 then Finite (x / t)
      else if x = 0 then NaN
      else if 0 < x then PosInf else NegInf)"

text \<open>\<open>numpy.digitize(x, bins)\<close> for increasing \<open>bins\<close>: the number of bin edges
  that are at most \<open>x\<close>.\<close>

definition digitize :: "real \<Rightarrow> real list \<Rightarrow> int" where
  "digitize x bins = int (length (filter (\<lambda>b. b \<le> x) bins))"

text \<open>\<open>numpy.radians\<close>.\<close>

definition radians :: "real \<Rightarrow> real" where
  "radians d = d * pi / 180"

text \<open>
  \<open>scipy.optimize.newton(func, x0, fprime)\<close> is library code outside the repository. The
  model is the library's Newton-Raphson loop with the settings \<open>idx2Pix\<close> leaves at their
  defaults (\<open>tol = 1.48e-8\<close>, \<open>maxiter = 50\<close>, \<open>rtol = 0\<close>, \<open>disp = True\<close>). At the current
  point \<open>p0\<close> it returns \<open>p0\<close> when \<open>func(p0) = 0\<close>, raises \<open>RuntimeError\<close> when
  \<open>fprime(p0) = 0\<close>, and otherwise steps to \<open>p = p0 - func(p0) / fprime(p0)\<close>, which it
  returns when \<open>|p - p0| <= tol\<close>. After \<open>maxiter\<close> steps without convergence it raises
  \<open>RuntimeError\<close>. The iterates of the floating-point loop and of the loop over the reals
  can differ, so nothing below depends on which of the two outcomes a call has: the
  results hold for a call that raises and for a call that returns.
\<close>

definition newton_tol :: real where
  "newton_tol = 148 / 10000000000"

fun newton_iter :: "(real \<Rightarrow> real) \<Rightarrow> (real \<Rightarrow> real) \<Rightarrow> nat \<Rightarrow> real \<Rightarrow> error + real" where
  "newton_iter func fprime 0 p0 = Inl RuntimeError"
| "newton_iter func fprime (Suc n) p0 =
     (if func p0 = 0 then Inr p0
      else if fprime p0 = 0 then Inl RuntimeError
      else
        let p = p0 - func p0 / fprime p0 in
        if \<bar>p - p0\<bar> \<le> newton_tol then Inr p
        else newton_iter func fprime n p)"

definition newton :: "(real \<Rightarrow> real) \<Rightarrow> real \<Rightarrow> (real \<Rightarrow> real) \<Rightarrow> error + real" where
  "newton func x0 fprime = newton_iter func fprime 50 x0"

section \<open>gdivmeas\_fullres.py: pixel and index mapping\<close>

definition EPSILON :: real where
  "EPSILON = 1 / 1000000"

text \<open>
  The three lambdas \<open>alpha\<close>, \<open>segArea\<close> and \<open>chordLen\<close>, on the integer arguments
  their callers pass. \<open>v / r\<close> raises \<open>ZeroDivisionError\<close> for \<open>r = 0\<close>. Outside
  \<open>[-1, 1]\<close> numpy's \<open>arccos\<close> returns NaN, and so does \<open>sqrt\<close> of a negative number; both
  callers pass the result, after adding a constant, to \<open>int()\<close>, which raises
  \<open>ValueError\<close> on NaN. The model raises that \<open>ValueError\<close> where the NaN arises.
\<close>

definition alpha :: "int \<Rightarrow> int \<Rightarrow> error + real" where
  "alpha v r =
     (if v \<le> r then
        if r = 0 then Inl ZeroDivisionError
        else if 1 < \<bar>real_of_int v / real_of_int r\<bar> then Inl ValueError
        else Inr (2 * arccos (real_of_int v / real_of_int r))
      else Inr 0)"

definition segArea :: "int \<Rightarrow> int \<Rightarrow> error + real" where
  "segArea v r =
     (case alpha v r of
        Inl e \<Rightarrow> Inl e
      | Inr a \<Rightarrow> Inr (0.5 * (real_of_int r)\<^sup>2 * (a - sin a)))"

definition chordLen :: "int \<Rightarrow> int \<Rightarrow> error + real" where
  "chordLen v r =
     (if v \<le> r then
        if r\<^sup>2 - v\<^sup>2 < 0 then Inl ValueError
        else Inr (2 * sqrt (real_of_int (r\<^sup>2 - v\<^sup>2)))
      else Inr 0)"

definition vwRay :: "real \<times> real \<Rightarrow> real \<times> real \<times> real" where
  "vwRay npix =
     (let (rx, ry) = npix;
          rx = 2 * rx - 1;
          ry = 2 * ry - 1;
          dr = sqrt (rx\<^sup>2 + ry\<^sup>2);
          Dz = cos (0.5 * pi * dr);
          pz = (if EPSILON < dr then sqrt (1 - Dz\<^sup>2) / dr else 0);
          Dx = rx * pz;
          Dy = ry * pz
      in (Dx, Dy, Dz))"

definition pix2Idx :: "int \<times> int \<Rightarrow> int \<Rightarrow> error + int" where
  "pix2Idx pix radius =
     (let (u, v) = pix;
          u = u - radius;
          v = v - radius in
      if (real_of_int radius)\<^sup>2 < real_of_int (u\<^sup>2 + v\<^sup>2) + EPSILON then Inr (- 1)
      else
        case segArea (v + 1) radius of
          Inl e \<Rightarrow> Inl e
        | Inr a \<Rightarrow>
            (case chordLen (v + 1) radius of
               Inl e \<Rightarrow> Inl e
             | Inr c \<Rightarrow> Inr (pyint (a + 0.5) + pyint (0.5 * c + real_of_int u + 1.5))))"

text \<open>The functions \<open>f\<close> and \<open>df\<close> that \<open>idx2Pix\<close> hands to the solver, with the
  arguments \<open>(idx - 1, radius)\<close> already supplied; \<open>df\<close> ignores them.\<close>

definition newton_f :: "int \<Rightarrow> int \<Rightarrow> real \<Rightarrow> real" where
  "newton_f idx radius a = 2 * real_of_int idx / (real_of_int radius)\<^sup>2 + sin a - a"

definition newton_df :: "real \<Rightarrow> real" where
  "newton_df a = cos a - 1"

text \<open>
  \<open>idx2Pix\<close> returns \<open>None\<close> for an index out of range (\<open>Inr None\<close>) and the pixel
  otherwise. With \<open>radius = 0\<close> and \<open>idx = 0\<close> the first evaluation of \<open>f\<close> divides by
  zero. An exception of the solver leaves \<open>idx2Pix\<close> uncaught.
\<close>

definition idx2Pix :: "int \<Rightarrow> int \<Rightarrow> error + (int \<times> int) option" where
  "idx2Pix idx radius =
     (if idx < 0 \<or> pi * (real_of_int radius)\<^sup>2 < real_of_int idx then Inr None
      else if radius = 0 then Inl ZeroDivisionError
      else
        case newton (newton_f (idx - 1) radius) pi newton_df of
          Inl e \<Rightarrow> Inl e
        | Inr alphaOpt \<Rightarrow>
            (let v = pyint (real_of_int radius * cos (alphaOpt / 2));
                 v = v + (if alphaOpt < pi then 1 else 0) in
             case segArea v radius of
               Inl e \<Rightarrow> Inl e
             | Inr a \<Rightarrow>
                 (case chordLen v radius of
                    Inl e \<Rightarrow> Inl e
                  | Inr c \<Rightarrow>
                      (let u = idx - 1 - pyint (a + 0.5) - pyint (0.5 * c + 0.5)
                       in Inr (Some (u + radius, v + radius - 1))))))"

text \<open>The size of the bin arrays that \<open>getCoeffs\<close> allocates for a radius.\<close>

definition numIdx :: "int \<Rightarrow> int" where
  "numIdx rad = pyint (pi * (real_of_int rad)\<^sup>2 + 0.5)"

section \<open>reinhartSolidAngles.py\<close>

text \<open>
  \<open>numpy.linspace(start, stop, num, retstep = True)\<close> for \<open>num \<ge> 2\<close>: the samples and the
  step. A negative \<open>num\<close> raises \<open>ValueError\<close>; the caller's \<open>num = 2 * MF * 7 + 2\<close> is
  never 0 or 1.
\<close>

definition linspace :: "real \<Rightarrow> real \<Rightarrow> int \<Rightarrow> error + (real list \<times> real)" where
  "linspace start stop num =
     (if num < 0 then Inl ValueError
      else
        let step = (stop - start) / real_of_int (num - 1)
        in Inr (map (\<lambda>k. start + real_of_int k * step) (arange 0 num), step))"

text \<open>The assignment \<open>a[1:] = values\<close> to a numpy array \<open>a\<close> of length \<open>n + 1\<close>: the
  list must have \<open>n\<close> elements, or one element that is broadcast; \<open>ValueError\<close>
  otherwise. The result is the new tail.\<close>

definition assign_tail :: "nat \<Rightarrow> real list \<Rightarrow> error + real list" where
  "assign_tail n vals =
     (if length vals = n then Inr vals
      else if length vals = 1 then Inr (replicate n (hd vals))
      else Inl ValueError)"

definition azimuthDivs_of :: "int \<Rightarrow> int list" where
  "azimuthDivs_of MF = [1] @ [MF * i. i \<leftarrow> [6, 12, 18, 24, 24, 30, 30], r \<leftarrow> arange 0 MF]"

text \<open>
  \<open>reinhartSolidAngles\<close>; the step that \<open>linspace\<close> returns, \<open>alpha\<close> in the source, is
  \<open>alpha'\<close> here. For \<open>MF \<ge> 0\<close> the list \<open>polarAngles\<close> has \<open>7 * MF + 2\<close>
  elements, \<open>polarAngM\<close> has one less and \<open>azimuthDivs\<close> has \<open>7 * MF + 1\<close>, so every index
  \<open>t\<close> of the comprehensions (\<open>1 \<le> t < nPolar - 1\<close>) and the index 1 of
  \<open>polarAngles\<close> is in range; the solid angle of the cap, by which the cosine term is
  divided, is positive.
\<close>

definition reinhartSolidAngles :: "int \<Rightarrow> error + (real list \<times> real list)" where
  "reinhartSolidAngles MF =
     (let nBins = MF\<^sup>2 * 144 + 1 in
      case linspace (- 0.5 * pi) (0.5 * pi) (2 * MF * 7 + 2) of
        Inl e \<Rightarrow> Inl e
      | Inr (polarAngles, alpha') \<Rightarrow>
          (let polarAngles = [0] @ filter (\<lambda>a. 0 < a) polarAngles;
               nPolar = length polarAngles;
               azimuthDivs = azimuthDivs_of MF;
               polarAngM = [0] @ map2 (\<lambda>a b. 0.5 * (a + b))
                                  (butlast (tl polarAngles)) (drop 2 polarAngles);
               dOmega0 = 2 * pi * (1 - cos (polarAngles ! 1));
               cosOmega0 = pi * (1 - (cos (polarAngles ! 1))\<^sup>2) / dOmega0
           in
             case assign_tail (nat (nBins - 1))
                    [sin (polarAngM ! t) * alpha' * 2 * pi / real_of_int (azimuthDivs ! t).
                       t \<leftarrow> [1..<nPolar - 1], p \<leftarrow> arange 0 (azimuthDivs ! t)] of
               Inl e \<Rightarrow> Inl e
             | Inr dOmega \<Rightarrow>
                 (case assign_tail (nat (nBins - 1))
                         [cos (polarAngM ! t).
                            t \<leftarrow> [1..<nPolar - 1], p \<leftarrow> arange 0 (azimuthDivs ! t)] of
                    Inl e \<Rightarrow> Inl e
                  | Inr cosOmega \<Rightarrow>
                      Inr (rev (dOmega0 # dOmega), rev (cosOmega0 # cosOmega)))))"

text \<open>The two sums that the script prints for a subdivision factor: \<open>dOmega.sum()\<close> and
  \<open>(dOmega * cosOmega).sum()\<close>.\<close>

definition sumOmega :: "int \<Rightarrow> error + real" where
  "sumOmega MF =
     (case reinhartSolidAngles MF of
        Inl e \<Rightarrow> Inl e
      | Inr (dOmega, cosOmega) \<Rightarrow> Inr (sum_list dOmega))"

definition sumProjOmega :: "int \<Rightarrow> error + real" where
  "sumProjOmega MF =
     (case reinhartSolidAngles MF of
        Inl e \<Rightarrow> Inl e
      | Inr (dOmega, cosOmega) \<Rightarrow> Inr (sum_list (map2 (*) dOmega cosOmega)))"


section \<open>gdivsymm.py: symmetry classes\<close>

subsection \<open>SymmetryBase\<close>

text \<open>
  The instance attributes \<open>_numCoeff\<close> and \<open>_clusters\<close> (both \<open>None\<close> in a fresh
  instance), and the attribute \<open>_numCoeffs\<close> that \<open>ReinhartCurveSymmetry.clusters\<close>
  writes. The attribute \<open>_resolution\<close> is written but never read (the source marks it
  "for info only") and is left out. A cluster is a list of bin numbers.
\<close>

record symm =
  s_numCoeff :: "int option"
  s_numCoeffs :: "int option"
  s_clusters :: "int list list option"

definition new_symm :: symm where
  "new_symm = \<lparr>s_numCoeff = None, s_numCoeffs = None, s_clusters = None\<rparr>"

text \<open>The test \<open>self._clusters is None or self._numCoeff != numCoeff\<close> that opens every
  \<open>clusters\<close> method.\<close>

definition stale :: "symm \<Rightarrow> int \<Rightarrow> bool" where
  "stale self numCoeff = (s_clusters self = None \<or> s_numCoeff self \<noteq> Some numCoeff)"

text \<open>
  \<open>clusterCoeffs\<close>, from the loaded coefficient vector on (reading the file is outside
  the model); the \<open>clusters\<close> method of the subclass is a parameter. \<open>clustIdx\<close> is
  the list of the clusters that contain a bin; the accumulation loop raises
  \<open>ValueError\<close> at the first bin that is in no cluster or in several.
\<close>

definition clustIdx :: "int list list \<Rightarrow> int \<Rightarrow> nat list" where
  "clustIdx clustList coeffIdx =
     [i. (i, c) \<leftarrow> enumerate 0 clustList, coeffIdx \<in> set c]"

fun accumulate :: "int list list \<Rightarrow> real list \<Rightarrow> (nat \<times> real) list \<Rightarrow> error + real list" where
  "accumulate clustList clustCoeffs [] = Inr clustCoeffs"
| "accumulate clustList clustCoeffs ((coeffIdx, coeff) # rest) =
     (case clustIdx clustList (int coeffIdx) of
        [] \<Rightarrow> Inl ValueError
      | [i] \<Rightarrow> accumulate clustList (clustCoeffs[i := clustCoeffs ! i + coeff]) rest
      | _ \<Rightarrow> Inl ValueError)"

definition clusterCoeffs ::
  "(symm \<Rightarrow> int \<Rightarrow> (error + int list list) \<times> symm) \<Rightarrow> symm \<Rightarrow> real list
     \<Rightarrow> (error + npfloat list) \<times> symm" where
  "clusterCoeffs clusters self coeffs =
     (let numCoeff = length coeffs in
      if numCoeff = 0 then (Inl ValueError, self)
      else
        case clusters self (int numCoeff) of
          (Inl e, self') \<Rightarrow> (Inl e, self')
        | (Inr clustList, self') \<Rightarrow>
            (case accumulate clustList (replicate (length clustList) 0) (enumerate 0 coeffs) of
               Inl e \<Rightarrow> (Inl e, self')
             | Inr clustCoeffs \<Rightarrow>
                 (Inr (map (\<lambda>c. np_div c (sum_list clustCoeffs)) clustCoeffs), self')))"

subsection \<open>KlemsSymmetry\<close>

definition Klems_init :: "int \<Rightarrow> error + int list list" where
  "Klems_init numCoeff =
     (if numCoeff \<noteq> 145 then Inl ValueError
      else
        let CLUST0 = [0]; CLUST30 = arange 1 45; CLUST45 = arange 45 93;
            CLUST60 = arange 93 145
        in Inr [CLUST0, CLUST30, CLUST45, CLUST60])"

definition Klems_clusters :: "symm \<Rightarrow> int \<Rightarrow> (error + int list list) \<times> symm" where
  "Klems_clusters self numCoeff =
     (if stale self numCoeff then
        case Klems_init numCoeff of
          Inl e \<Rightarrow> (Inl e, self)
        | Inr cl \<Rightarrow> (Inr cl, self\<lparr>s_clusters := Some cl, s_numCoeff := Some numCoeff\<rparr>)
      else (Inr (the (s_clusters self)), self))"

subsection \<open>ReinhartSymmetry.patches\<close>

definition tnaz :: "int list" where
  "tnaz = [30, 30, 24, 24, 18, 12, 6]"

text \<open>The running sums \<open>racc[0] = rnaz[0]\<close>, \<open>racc[r] = racc[r-1] + rnaz[r]\<close>.\<close>

fun cumulate :: "int \<Rightarrow> int list \<Rightarrow> int list" where
  "cumulate a [] = []"
| "cumulate a (x # xs) = (a + x) # cumulate (a + x) xs"

text \<open>
  \<open>patches\<close> returns \<open>(r_row, rnaz, racc)\<close>. For \<open>numCoeff < 1\<close> the square root is
  NaN, the consistency check fails and \<open>ValueError\<close> is raised. With \<open>MF = 0\<close>
  (\<open>numCoeff = 1\<close>) the check passes, \<open>r_row\<close> is 0 and \<open>racc[0] = rnaz[0]\<close> reads an
  empty array. The local \<open>alpha\<close> of the source is \<open>alpha'\<close> here.
\<close>

definition patches :: "int \<Rightarrow> error + (int \<times> int list \<times> int list)" where
  "patches numCoeff =
     (if numCoeff < 1 then Inl ValueError
      else
        let MF = rint (sqrt (real_of_int (numCoeff - 1) / 144)) in
        if MF\<^sup>2 * 144 + 1 \<noteq> numCoeff then Inl ValueError
        else
          let r_alt = 90;
              alpha' = 90 / (real_of_int MF * 7 + 0.5);
              r_row = pyint (r_alt / alpha') in
          case collect
                 (\<lambda>r. case pyget tnaz \<lfloor>(real_of_int r + 0.5) / real_of_int MF\<rfloor> of
                         Inl e \<Rightarrow> Inl e
                       | Inr t \<Rightarrow> Inr (MF * t))
                 (arange 0 r_row) of
            Inl e \<Rightarrow> Inl e
          | Inr rnaz \<Rightarrow>
              (case rnaz of
                 [] \<Rightarrow> Inl IndexError
               | _ # _ \<Rightarrow>
                   (let racc = cumulate 0 rnaz
                    in Inr (r_row, rnaz, racc @ [last racc + 1]))))"

subsection \<open>ReinhartRotSymmetry and ReinhartCurveSymmetry\<close>

text \<open>The array \<open>clust\<close> both classes build from \<open>patches\<close>: \<open>clust[r_row]\<close> is
  \<open>range(racc[0])\<close> and \<open>clust[r_row - i]\<close> is \<open>range(racc[i-1], racc[i])\<close>;
  \<open>racc\<close> has \<open>r_row + 1\<close> elements.\<close>

definition clust_rows :: "int \<Rightarrow> int list \<Rightarrow> int list list" where
  "clust_rows r_row racc =
     rev (arange 0 (racc ! 0) #
          map (\<lambda>i. arange (racc ! nat (i - 1)) (racc ! nat i)) (arange 1 (r_row + 1)))"

definition Rot_init :: "int \<Rightarrow> error + int list list" where
  "Rot_init numCoeff =
     (case patches numCoeff of
        Inl e \<Rightarrow> Inl e
      | Inr (r_row, rnaz, racc) \<Rightarrow> Inr (clust_rows r_row racc))"

definition Rot_clusters :: "symm \<Rightarrow> int \<Rightarrow> (error + int list list) \<times> symm" where
  "Rot_clusters self numCoeff =
     (if stale self numCoeff then
        case Rot_init numCoeff of
          Inl e \<Rightarrow> (Inl e, self)
        | Inr cl \<Rightarrow> (Inr cl, self\<lparr>s_clusters := Some cl, s_numCoeff := Some numCoeff\<rparr>)
      else (Inr (the (s_clusters self)), self))"

text \<open>The rows \<open>clust[i]\<close> for \<open>i\<close> in \<open>range(a, b)\<close>, appended element by element;
  a row beyond the end of \<open>clust\<close> raises \<open>IndexError\<close>.\<close>

definition rows_of :: "int list list \<Rightarrow> nat \<Rightarrow> nat \<Rightarrow> error + int list" where
  "rows_of clust a b =
     (case collect (\<lambda>i. pyget clust (int i)) [a..<b] of
        Inl e \<Rightarrow> Inl e
      | Inr rs \<Rightarrow> Inr (concat rs))"

text \<open>The rows that make up \<open>CLUST0\<close>, \<open>CLUST3\<close>, ..., \<open>CLUST70\<close>, in the order of the
  returned list: a pair \<open>(a, b)\<close> stands for \<open>clust[a], ..., clust[b-1]\<close>.\<close>

definition CLUST_rows :: "(nat \<times> nat) list" where
  "CLUST_rows =
     [(0, 1), (1, 2), (2, 3), (3, 4), (4, 5), (5, 8), (8, 11), (11, 14),
      (14, 15), (15, 16), (16, 17), (17, 18), (18, 19), (19, 21), (21, 29)]"

definition Curve_init :: "int \<Rightarrow> error + int list list" where
  "Curve_init numCoeff =
     (case patches numCoeff of
        Inl e \<Rightarrow> Inl e
      | Inr (r_row, rnaz, racc) \<Rightarrow>
          collect (\<lambda>(a, b). rows_of (clust_rows r_row racc) a b) CLUST_rows)"

text \<open>\<open>ReinhartCurveSymmetry.clusters\<close> stores the bin count in \<open>_numCoeffs\<close>, so
  \<open>_numCoeff\<close> keeps its value.\<close>

definition Curve_clusters :: "symm \<Rightarrow> int \<Rightarrow> (error + int list list) \<times> symm" where
  "Curve_clusters self numCoeff =
     (if stale self numCoeff then
        case Curve_init numCoeff of
          Inl e \<Rightarrow> (Inl e, self)
        | Inr cl \<Rightarrow> (Inr cl, self\<lparr>s_clusters := Some cl, s_numCoeffs := Some numCoeff\<rparr>)
      else (Inr (the (s_clusters self)), self))"

subsection \<open>ReinhartProfSymmetry\<close>

definition Prof_CLUST1 :: "int list" where
  "Prof_CLUST1 =
    [86, 87, 88, 89, 90, 207, 208, 209]"

definition Prof_CLUST2 :: "int list" where
  "Prof_CLUST2 =
    [81, 82, 83, 84, 85, 91, 92, 93, 94, 95, 201, 202, 203, 204, 205, 206, 210, 211, 212,
     213, 214, 215, 322, 323, 324, 325, 326, 327, 328, 329, 330, 331, 332, 333, 334, 442,
     443, 444, 445, 446, 447, 448, 449, 450, 451, 452, 453, 454, 563, 564, 565, 566, 567,
     568, 569, 570, 571, 572, 573, 684, 685, 686, 687, 688, 689, 690, 691, 692, 807, 808, 809]"

definition Prof_CLUST3 :: "int list" where
  "Prof_CLUST3 =
    [76, 77, 78, 79, 80, 96, 97, 98, 99, 100, 196, 197, 198, 199, 200, 216, 217, 218, 219,
     220, 316, 317, 318, 319, 320, 321, 335, 336, 337, 338, 339, 340, 436, 437, 438, 439,
     440, 441, 455, 456, 457, 458, 459, 460, 557, 558, 559, 560, 561, 562, 574, 575, 576,
     577, 578, 579, 677, 678, 679, 680, 681, 682, 683, 693, 694, 695, 696, 697, 698, 699,
     797, 798, 799, 800, 801, 802, 803, 804, 805, 806, 810, 811, 812, 813, 814, 815, 816,
     817, 818, 819, 918, 919, 920, 921, 922, 923, 924, 925, 926, 927, 928, 929, 930, 931,
     932, 933, 934, 935, 936, 937, 938, 1023, 1024, 1025, 1026, 1027, 1028, 1029, 1030, 1031,
     1032, 1033, 1034, 1035, 1036, 1037, 1038, 1120, 1121, 1122, 1123, 1124, 1125, 1126,
     1127, 1128, 1129, 1130, 1131, 1132, 1218, 1219, 1220, 1221, 1222, 1223, 1224, 1225,
     1226, 1227]"

definition Prof_CLUST4 :: "int list" where
  "Prof_CLUST4 =
    [71, 72, 73, 74, 75, 101, 102, 103, 104, 105, 191, 192, 193, 194, 195, 221, 222, 223,
     224, 225, 311, 312, 313, 314, 315, 341, 342, 343, 344, 345, 431, 432, 433, 434, 435,
     461, 462, 463, 464, 465, 551, 552, 553, 554, 555, 556, 580, 581, 582, 583, 584, 585,
     671, 672, 673, 674, 675, 676, 700, 701, 702, 703, 704, 705, 791, 792, 793, 794, 795,
     796, 820, 821, 822, 823, 824, 825, 912, 913, 914, 915, 916, 917, 939, 940, 941, 942,
     943, 944, 1018, 1019, 1020, 1021, 1022, 1039, 1040, 1041, 1042, 1043, 1114, 1115, 1116,
     1117, 1118, 1119, 1133, 1134, 1135, 1136, 1137, 1138, 1139, 1210, 1211, 1212, 1213,
     1214, 1215, 1216, 1217, 1228, 1229, 1230, 1231, 1232, 1233, 1234, 1235, 1307, 1308,
     1309, 1310, 1311, 1312, 1313, 1314, 1315, 1316, 1317, 1318, 1319, 1320, 1321, 1322,
     1323, 1324, 1325, 1326, 1327, 1328, 1329, 1330, 1403, 1404, 1405, 1406, 1407, 1408,
     1409, 1410, 1411, 1412, 1413, 1414, 1415, 1416, 1417, 1418, 1419, 1420, 1421, 1422,
     1423, 1424, 1425, 1426, 1500, 1501, 1502, 1503, 1504, 1505, 1506, 1507, 1508, 1509,
     1510, 1511, 1512, 1513, 1514, 1515, 1516, 1517, 1518, 1519, 1520, 1521, 1597, 1598,
     1599, 1600, 1601, 1602, 1603, 1604, 1605, 1606, 1607, 1608, 1609, 1610, 1611, 1612,
     1613, 1614, 1615, 1696, 1697, 1698, 1699, 1700, 1701, 1702, 1703, 1704, 1705, 1706,
     1707, 1708, 1709]"

definition Prof_CLUST5 :: "int list" where
  "Prof_CLUST5 =
    [66, 67, 68, 69, 70, 106, 107, 108, 109, 110, 186, 187, 188, 189, 190, 226, 227, 228,
     229, 230, 306, 307, 308, 309, 310, 346, 347, 348, 349, 350, 426, 427, 428, 429, 430,
     466, 467, 468, 469, 470, 546, 547, 548, 549, 550, 586, 587, 588, 589, 590, 666, 667,
     668, 669, 670, 706, 707, 708, 709, 710, 786, 787, 788, 789, 790, 826, 827, 828, 829,
     830, 906, 907, 908, 909, 910, 911, 945, 946, 947, 948, 949, 950, 1013, 1014, 1015, 1016,
     1017, 1044, 1045, 1046, 1047, 1048, 1109, 1110, 1111, 1112, 1113, 1140, 1141, 1142,
     1143, 1144, 1205, 1206, 1207, 1208, 1209, 1236, 1237, 1238, 1239, 1240, 1301, 1302,
     1303, 1304, 1305, 1306, 1331, 1332, 1333, 1334, 1335, 1336, 1397, 1398, 1399, 1400,
     1401, 1402, 1427, 1428, 1429, 1430, 1431, 1432, 1493, 1494, 1495, 1496, 1497, 1498,
     1499, 1522, 1523, 1524, 1525, 1526, 1527, 1590, 1591, 1592, 1593, 1594, 1595, 1596,
     1616, 1617, 1618, 1619, 1620, 1621, 1622, 1623, 1686, 1687, 1688, 1689, 1690, 1691,
     1692, 1693, 1694, 1695, 1710, 1711, 1712, 1713, 1714, 1715, 1716, 1717, 1718, 1719,
     1769, 1770, 1771, 1772, 1773, 1774, 1775, 1776, 1777, 1778, 1779, 1780, 1781, 1782,
     1783, 1784, 1785, 1786, 1787, 1788, 1789, 1790, 1791, 1792, 1793, 1841, 1842, 1843,
     1844, 1845, 1846, 1847, 1848, 1849, 1850, 1851, 1852, 1853, 1854, 1855, 1856, 1857,
     1858, 1859, 1860, 1861, 1862, 1863, 1864, 1865, 1913, 1914, 1915, 1916, 1917, 1918,
     1919, 1920, 1921, 1922, 1923, 1924, 1925, 1926, 1927, 1928, 1929, 1930, 1931, 1932,
     1933, 1934, 1935, 1936, 1986, 1987, 1988, 1989, 1990, 1991, 1992, 1993, 1994, 1995,
     1996, 1997, 1998, 1999, 2000, 2001, 2002, 2003, 2004, 2005, 2006, 2007, 2047, 2048,
     2049, 2050, 2051, 2052, 2053, 2054, 2055, 2056]"

definition Prof_CLUST6 :: "int list" where
  "Prof_CLUST6 =
    [61, 62, 63, 64, 65, 111, 112, 113, 114, 115, 181, 182, 183, 184, 185, 231, 232, 233,
     234, 235, 301, 302, 303, 304, 305, 351, 352, 353, 354, 355, 421, 422, 423, 424, 425,
     471, 472, 473, 474, 475, 541, 542, 543, 544, 545, 591, 592, 593, 594, 595, 661, 662,
     663, 664, 665, 711, 712, 713, 714, 715, 781, 782, 783, 784, 785, 831, 832, 833, 834,
     835, 901, 902, 903, 904, 905, 951, 952, 953, 954, 955, 1009, 1010, 1011, 1012, 1049,
     1050, 1051, 1052, 1105, 1106, 1107, 1108, 1145, 1146, 1147, 1148, 1201, 1202, 1203,
     1204, 1241, 1242, 1243, 1244, 1297, 1298, 1299, 1300, 1337, 1338, 1339, 1340, 1393,
     1394, 1395, 1396, 1433, 1434, 1435, 1436, 1489, 1490, 1491, 1492, 1528, 1529, 1530,
     1531, 1532, 1585, 1586, 1587, 1588, 1589, 1624, 1625, 1626, 1627, 1628, 1681, 1682,
     1683, 1684, 1685, 1720, 1721, 1722, 1723, 1724, 1765, 1766, 1767, 1768, 1794, 1795,
     1796, 1797, 1837, 1838, 1839, 1840, 1866, 1867, 1868, 1869, 1909, 1910, 1911, 1912,
     1937, 1938, 1939, 1940, 1941, 1981, 1982, 1983, 1984, 1985, 2008, 2009, 2010, 2011,
     2012, 2013, 2041, 2042, 2043, 2044, 2045, 2046, 2057, 2058, 2059, 2060, 2061, 2062,
     2089, 2090, 2091, 2092, 2093, 2094, 2095, 2096, 2097, 2098, 2099, 2100, 2101, 2102,
     2103, 2104, 2105, 2106, 2107, 2108, 2109, 2110, 2137, 2138, 2139, 2140, 2141, 2142,
     2143, 2144, 2145, 2146, 2147, 2148, 2149, 2150, 2151, 2152, 2153, 2154, 2155, 2156,
     2157, 2158, 2185, 2186, 2187, 2188, 2189, 2190, 2191, 2192, 2193, 2194, 2195, 2196,
     2197, 2198, 2199, 2200, 2201, 2202, 2203, 2204, 2205, 2206, 2221, 2222, 2223, 2224,
     2225, 2226, 2227, 2228, 2229, 2230, 2246, 2247, 2248, 2249, 2250, 2251, 2252, 2253, 2254]"

definition Prof_CLUST7 :: "int list" where
  "Prof_CLUST7 =
    [0, 56, 57, 58, 59, 60, 116, 117, 118, 119, 120, 176, 177, 178, 179, 180, 236, 237, 238,
     239, 240, 296, 297, 298, 299, 300, 356, 357, 358, 359, 360, 416, 417, 418, 419, 420,
     476, 477, 478, 479, 480, 536, 537, 538, 539, 540, 596, 597, 598, 599, 600, 656, 657,
     658, 659, 660, 716, 717, 718, 719, 720, 776, 777, 778, 779, 780, 836, 837, 838, 839,
     840, 896, 897, 898, 899, 900, 956, 957, 958, 959, 960, 1005, 1006, 1007, 1008, 1053,
     1054, 1055, 1056, 1101, 1102, 1103, 1104, 1149, 1150, 1151, 1152, 1197, 1198, 1199,
     1200, 1245, 1246, 1247, 1248, 1293, 1294, 1295, 1296, 1341, 1342, 1343, 1344, 1389,
     1390, 1391, 1392, 1437, 1438, 1439, 1440, 1485, 1486, 1487, 1488, 1533, 1534, 1535,
     1536, 1581, 1582, 1583, 1584, 1629, 1630, 1631, 1632, 1677, 1678, 1679, 1680, 1725,
     1726, 1727, 1728, 1762, 1763, 1764, 1798, 1799, 1800, 1834, 1835, 1836, 1870, 1871,
     1872, 1906, 1907, 1908, 1942, 1943, 1944, 1978, 1979, 1980, 2014, 2015, 2016, 2039,
     2040, 2063, 2064, 2087, 2088, 2111, 2112, 2135, 2136, 2159, 2160, 2183, 2184, 2207,
     2208, 2219, 2220, 2231, 2232, 2233, 2243, 2244, 2245, 2255, 2256, 2257, 2258, 2259,
     2260, 2261, 2262, 2263, 2264, 2265, 2266, 2267, 2268, 2269, 2270, 2271, 2272, 2273,
     2274, 2275, 2276, 2277, 2278, 2279, 2280, 2281, 2282, 2283, 2284, 2285, 2286, 2287,
     2288, 2289, 2290, 2291, 2292, 2293, 2294, 2295, 2296, 2297, 2298, 2299, 2300, 2301,
     2302, 2303, 2304]"

definition Prof_CLUST8 :: "int list" where
  "Prof_CLUST8 =
    [1, 2, 3, 4, 5, 51, 52, 53, 54, 55, 121, 122, 123, 124, 125, 171, 172, 173, 174, 175,
     241, 242, 243, 244, 245, 291, 292, 293, 294, 295, 361, 362, 363, 364, 365, 411, 412,
     413, 414, 415, 481, 482, 483, 484, 485, 531, 532, 533, 534, 535, 601, 602, 603, 604,
     605, 651, 652, 653, 654, 655, 721, 722, 723, 724, 725, 771, 772, 773, 774, 775, 841,
     842, 843, 844, 845, 891, 892, 893, 894, 895, 961, 962, 963, 964, 1001, 1002, 1003, 1004,
     1057, 1058, 1059, 1060, 1097, 1098, 1099, 1100, 1153, 1154, 1155, 1156, 1193, 1194,
     1195, 1196, 1249, 1250, 1251, 1252, 1289, 1290, 1291, 1292, 1345, 1346, 1347, 1348,
     1385, 1386, 1387, 1388, 1441, 1442, 1443, 1444, 1480, 1481, 1482, 1483, 1484, 1537,
     1538, 1539, 1540, 1541, 1576, 1577, 1578, 1579, 1580, 1633, 1634, 1635, 1636, 1637,
     1672, 1673, 1674, 1675, 1676, 1729, 1730, 1731, 1732, 1758, 1759, 1760, 1761, 1801,
     1802, 1803, 1804, 1830, 1831, 1832, 1833, 1873, 1874, 1875, 1876, 1901, 1902, 1903,
     1904, 1905, 1945, 1946, 1947, 1948, 1949, 1972, 1973, 1974, 1975, 1976, 1977, 2017,
     2018, 2019, 2020, 2021, 2022, 2033, 2034, 2035, 2036, 2037, 2038, 2065, 2066, 2067,
     2068, 2069, 2070, 2071, 2072, 2073, 2074, 2075, 2076, 2077, 2078, 2079, 2080, 2081,
     2082, 2083, 2084, 2085, 2086, 2113, 2114, 2115, 2116, 2117, 2118, 2119, 2120, 2121,
     2122, 2123, 2124, 2125, 2126, 2127, 2128, 2129, 2130, 2131, 2132, 2133, 2134, 2161,
     2162, 2163, 2164, 2165, 2166, 2167, 2168, 2169, 2170, 2171, 2172, 2173, 2174, 2175,
     2176, 2177, 2178, 2179, 2180, 2181, 2182, 2209, 2210, 2211, 2212, 2213, 2214, 2215,
     2216, 2217, 2218, 2234, 2235, 2236, 2237, 2238, 2239, 2240, 2241, 2242]"

definition Prof_CLUST9 :: "int list" where
  "Prof_CLUST9 =
    [6, 7, 8, 9, 10, 46, 47, 48, 49, 50, 126, 127, 128, 129, 130, 166, 167, 168, 169, 170,
     246, 247, 248, 249, 250, 286, 287, 288, 289, 290, 366, 367, 368, 369, 370, 406, 407,
     408, 409, 410, 486, 487, 488, 489, 490, 526, 527, 528, 529, 530, 606, 607, 608, 609,
     610, 646, 647, 648, 649, 650, 726, 727, 728, 729, 730, 766, 767, 768, 769, 770, 846,
     847, 848, 849, 850, 851, 885, 886, 887, 888, 889, 890, 965, 966, 967, 968, 969, 996,
     997, 998, 999, 1000, 1061, 1062, 1063, 1064, 1065, 1092, 1093, 1094, 1095, 1096, 1157,
     1158, 1159, 1160, 1161, 1188, 1189, 1190, 1191, 1192, 1253, 1254, 1255, 1256, 1257,
     1258, 1283, 1284, 1285, 1286, 1287, 1288, 1349, 1350, 1351, 1352, 1353, 1354, 1379,
     1380, 1381, 1382, 1383, 1384, 1445, 1446, 1447, 1448, 1449, 1450, 1451, 1474, 1475,
     1476, 1477, 1478, 1479, 1542, 1543, 1544, 1545, 1546, 1547, 1548, 1568, 1569, 1570,
     1571, 1572, 1573, 1574, 1575, 1638, 1639, 1640, 1641, 1642, 1643, 1644, 1645, 1646,
     1647, 1662, 1663, 1664, 1665, 1666, 1667, 1668, 1669, 1670, 1671, 1733, 1734, 1735,
     1736, 1737, 1738, 1739, 1740, 1741, 1742, 1743, 1744, 1745, 1746, 1747, 1748, 1749,
     1750, 1751, 1752, 1753, 1754, 1755, 1756, 1757, 1805, 1806, 1807, 1808, 1809, 1810,
     1811, 1812, 1813, 1814, 1815, 1816, 1817, 1818, 1819, 1820, 1821, 1822, 1823, 1824,
     1825, 1826, 1827, 1828, 1829, 1877, 1878, 1879, 1880, 1881, 1882, 1883, 1884, 1885,
     1886, 1887, 1888, 1889, 1890, 1891, 1892, 1893, 1894, 1895, 1896, 1897, 1898, 1899,
     1900, 1950, 1951, 1952, 1953, 1954, 1955, 1956, 1957, 1958, 1959, 1960, 1961, 1962,
     1963, 1964, 1965, 1966, 1967, 1968, 1969, 1970, 1971, 2023, 2024, 2025, 2026, 2027,
     2028, 2029, 2030, 2031, 2032]"

definition Prof_CLUST10 :: "int list" where
  "Prof_CLUST10 =
    [11, 12, 13, 14, 15, 41, 42, 43, 44, 45, 131, 132, 133, 134, 135, 161, 162, 163, 164,
     165, 251, 252, 253, 254, 255, 281, 282, 283, 284, 285, 371, 372, 373, 374, 375, 401,
     402, 403, 404, 405, 491, 492, 493, 494, 495, 496, 520, 521, 522, 523, 524, 525, 611,
     612, 613, 614, 615, 616, 640, 641, 642, 643, 644, 645, 731, 732, 733, 734, 735, 736,
     760, 761, 762, 763, 764, 765, 852, 853, 854, 855, 856, 857, 879, 880, 881, 882, 883,
     884, 970, 971, 972, 973, 974, 991, 992, 993, 994, 995, 1066, 1067, 1068, 1069, 1070,
     1071, 1085, 1086, 1087, 1088, 1089, 1090, 1091, 1162, 1163, 1164, 1165, 1166, 1167,
     1168, 1169, 1180, 1181, 1182, 1183, 1184, 1185, 1186, 1187, 1259, 1260, 1261, 1262,
     1263, 1264, 1265, 1266, 1267, 1268, 1269, 1270, 1271, 1272, 1273, 1274, 1275, 1276,
     1277, 1278, 1279, 1280, 1281, 1282, 1355, 1356, 1357, 1358, 1359, 1360, 1361, 1362,
     1363, 1364, 1365, 1366, 1367, 1368, 1369, 1370, 1371, 1372, 1373, 1374, 1375, 1376,
     1377, 1378, 1452, 1453, 1454, 1455, 1456, 1457, 1458, 1459, 1460, 1461, 1462, 1463,
     1464, 1465, 1466, 1467, 1468, 1469, 1470, 1471, 1472, 1473, 1549, 1550, 1551, 1552,
     1553, 1554, 1555, 1556, 1557, 1558, 1559, 1560, 1561, 1562, 1563, 1564, 1565, 1566,
     1567, 1648, 1649, 1650, 1651, 1652, 1653, 1654, 1655, 1656, 1657, 1658, 1659, 1660, 1661]"

definition Prof_CLUST11 :: "int list" where
  "Prof_CLUST11 =
    [16, 17, 18, 19, 20, 36, 37, 38, 39, 40, 136, 137, 138, 139, 140, 156, 157, 158, 159,
     160, 256, 257, 258, 259, 260, 261, 275, 276, 277, 278, 279, 280, 376, 377, 378, 379,
     380, 381, 395, 396, 397, 398, 399, 400, 497, 498, 499, 500, 501, 502, 514, 515, 516,
     517, 518, 519, 617, 618, 619, 620, 621, 622, 623, 633, 634, 635, 636, 637, 638, 639,
     737, 738, 739, 740, 741, 742, 743, 744, 745, 746, 750, 751, 752, 753, 754, 755, 756,
     757, 758, 759, 858, 859, 860, 861, 862, 863, 864, 865, 866, 867, 868, 869, 870, 871,
     872, 873, 874, 875, 876, 877, 878, 975, 976, 977, 978, 979, 980, 981, 982, 983, 984,
     985, 986, 987, 988, 989, 990, 1072, 1073, 1074, 1075, 1076, 1077, 1078, 1079, 1080,
     1081, 1082, 1083, 1084, 1170, 1171, 1172, 1173, 1174, 1175, 1176, 1177, 1178, 1179]"

definition Prof_CLUST12 :: "int list" where
  "Prof_CLUST12 =
    [21, 22, 23, 24, 25, 31, 32, 33, 34, 35, 141, 142, 143, 144, 145, 146, 150, 151, 152,
     153, 154, 155, 262, 263, 264, 265, 266, 267, 268, 269, 270, 271, 272, 273, 274, 382,
     383, 384, 385, 386, 387, 388, 389, 390, 391, 392, 393, 394, 503, 504, 505, 506, 507,
     508, 509, 510, 511, 512, 513, 624, 625, 626, 627, 628, 629, 630, 631, 632, 747, 748, 749]"

definition Prof_CLUST13 :: "int list" where
  "Prof_CLUST13 =
    [26, 27, 28, 29, 30, 147, 148, 149]"

definition Prof_init :: "int \<Rightarrow> error + int list list" where
  "Prof_init numCoeff =
     Inr [Prof_CLUST1, Prof_CLUST2, Prof_CLUST3, Prof_CLUST4, Prof_CLUST5, Prof_CLUST6,
          Prof_CLUST7, Prof_CLUST8, Prof_CLUST9, Prof_CLUST10, Prof_CLUST11, Prof_CLUST12,
          Prof_CLUST13]"

definition Prof_clusters :: "symm \<Rightarrow> int \<Rightarrow> (error + int list list) \<times> symm" where
  "Prof_clusters self numCoeff =
     (if stale self numCoeff then
        case Prof_init numCoeff of
          Inl e \<Rightarrow> (Inl e, self)
        | Inr cl \<Rightarrow> (Inr cl, self\<lparr>s_clusters := Some cl, s_numCoeff := Some numCoeff\<rparr>)
      else (Inr (the (s_clusters self)), self))"

subsection \<open>FullResSymmetry\<close>

definition CLUSTTHETAS :: "real list" where
  "CLUSTTHETAS = map (\<lambda>k. radians (real_of_int k)) (arange 0 80)"

text \<open>One pass of the loop over \<open>idx\<close>: the polar angle of the bin. When \<open>idx2Pix\<close>
  returns \<open>None\<close>, the product \<open>0.5 * pix\<close> raises \<open>TypeError\<close>.\<close>

definition coeffTheta :: "int \<Rightarrow> int \<Rightarrow> error + real" where
  "coeffTheta rad idx =
     (case idx2Pix idx rad of
        Inl e \<Rightarrow> Inl e
      | Inr None \<Rightarrow> Inl TypeError
      | Inr (Some (x, y)) \<Rightarrow>
          (let (Dx, Dy, Dz) = vwRay (0.5 * real_of_int x / real_of_int rad,
                                      0.5 * real_of_int y / real_of_int rad)
           in Inr (arccos Dz)))"

text \<open>\<open>numpy.zeros(numCoeff)\<close> raises \<open>ValueError\<close> for a negative size.
  \<open>flatnonzero(thetaBins == i)\<close> lists the positions of \<open>i\<close> in \<open>thetaBins\<close>.\<close>

definition FullRes_init :: "int \<Rightarrow> error + int list list" where
  "FullRes_init numCoeff =
     (if numCoeff < 0 then Inl ValueError
      else
        let rad = pyint (sqrt (real_of_int numCoeff / pi) + 1) in
        case collect (coeffTheta rad) (arange 0 numCoeff) of
          Inl e \<Rightarrow> Inl e
        | Inr coeffThetas \<Rightarrow>
            (let thetaBins = map (\<lambda>t. digitize t CLUSTTHETAS - 1) coeffThetas
             in Inr (map (\<lambda>i. [idx. (idx, b) \<leftarrow> zip (arange 0 numCoeff) thetaBins, b = i])
                       (arange 0 (int (length CLUSTTHETAS))))))"

definition FullRes_clusters :: "symm \<Rightarrow> int \<Rightarrow> (error + int list list) \<times> symm" where
  "FullRes_clusters self numCoeff =
     (if stale self numCoeff then
        case FullRes_init numCoeff of
          Inl e \<Rightarrow> (Inl e, self)
        | Inr cl \<Rightarrow> (Inr cl, self\<lparr>s_clusters := Some cl, s_numCoeff := Some numCoeff\<rparr>)
      else (Inr (the (s_clusters self)), self))"

section \<open>Notions used in the statements\<close>

text \<open>The states an instance can be in: fresh, or after any number of calls of its
  \<open>clusters\<close> method.\<close>

inductive reach :: "(symm \<Rightarrow> int \<Rightarrow> (error + int list list) \<times> symm) \<Rightarrow> symm \<Rightarrow> bool"
  for clusters where
  reach_new: "reach clusters new_symm"
| reach_call: "reach clusters self \<Longrightarrow> reach clusters (snd (clusters self numCoeff))"

text \<open>A list of clusters is a partition of the bins \<open>0, ..., n - 1\<close>: the clusters are
  pairwise disjoint and their union is the set of all bins.\<close>

definition partition_of :: "int list list \<Rightarrow> int \<Rightarrow> bool" where
  "partition_of cl n \<longleftrightarrow>
     (\<Union>c \<in> set cl. set c) = {0..<n} \<and>
     (\<forall>i < length cl. \<forall>j < length cl. i \<noteq> j \<longrightarrow> set (cl ! i) \<inter> set (cl ! j) = {})"

text \<open>The cache of an instance is sound for a computation \<open>init\<close>: clusters
  cached together with a bin count are the clusters \<open>init\<close> computes for that count.\<close>

definition cache_ok :: "(int \<Rightarrow> error + int list list) \<Rightarrow> symm \<Rightarrow> bool" where
  "cache_ok init self \<longleftrightarrow>
     (case s_clusters self of
        None \<Rightarrow> True
      | Some cl \<Rightarrow> (case s_numCoeff self of None \<Rightarrow> True | Some n \<Rightarrow> init n = Inr cl))"


section \<open>Auxiliary definitions for the proofs\<close>

text \<open>What \<open>patches\<close> returns for a positive subdivision factor \<open>MF\<close>: the patches per
  row and their running sums.\<close>

definition rnaz_of :: "int \<Rightarrow> int list" where
  "rnaz_of MF = map (\<lambda>r. MF * tnaz ! nat (r div MF)) (arange 0 (7 * MF))"

definition racc_of :: "int \<Rightarrow> int list" where
  "racc_of MF = cumulate 0 (rnaz_of MF) @ [last (cumulate 0 (rnaz_of MF)) + 1]"


text \<open>Merging two increasing lists, to compare the thirteen hand-written clusters of
  \<open>ReinhartProfSymmetry\<close> with the list of all bins.\<close>

fun merge :: "int list \<Rightarrow> int list \<Rightarrow> int list" where
  "merge [] ys = ys"
| "merge (x # xs) [] = x # xs"
| "merge (x # xs) (y # ys) = (if x \<le> y then x # merge xs (y # ys) else y # merge (x # xs) ys)"

text \<open>The polar angle that the loop of \<open>FullResSymmetry.clusters\<close> stores for a bin, and
  the cluster number it is given.\<close>

definition theta_of :: "int \<Rightarrow> int \<Rightarrow> real" where
  "theta_of rad idx = (case coeffTheta rad idx of Inr t \<Rightarrow> t | Inl e \<Rightarrow> 0)"

definition thetaBin :: "real \<Rightarrow> int" where
  "thetaBin t = digitize t CLUSTTHETAS - 1"

text \<open>The polar increment of the Reinhart basis with subdivision factor \<open>MF\<close>, and the
  list that \<open>reinhartSolidAngles\<close> assigns to \<open>dOmega[1:]\<close> and \<open>cosOmega[1:]\<close>: the value
  \<open>F t\<close> of row \<open>t\<close>, once for each azimuth division of the row.\<close>

definition rstep :: "int \<Rightarrow> real" where
  "rstep MF = pi / real_of_int (14 * MF + 1)"

definition row_values :: "(nat \<Rightarrow> real) \<Rightarrow> int \<Rightarrow> real list" where
  "row_values F MF =
     [F t. t \<leftarrow> [1..<Suc (nat (7 * MF))], p \<leftarrow> arange 0 (azimuthDivs_of MF ! t)]"

text \<open>The sums of the solid angles and of the projected solid angles in closed form,
  with \<open>x\<close> half the polar increment.\<close>

definition closedOmega :: "int \<Rightarrow> real" where
  "closedOmega MF =
     (let x = rstep MF / 2 in 2 * pi * (1 - cos x + x * cos x / sin x))"

definition closedProj :: "int \<Rightarrow> real" where
  "closedProj MF =
     (let x = rstep MF / 2 in pi * ((sin x)\<^sup>2 + x * cos x / sin x))"


section \<open>Basic facts about the primitives\<close>

lemma length_arange: "length (arange a b) = nat (b - a)"
  by (simp add: arange_def)

lemma set_arange: "set (arange a b) = {a..<b}"
  by (auto simp: arange_def)

lemma distinct_arange: "distinct (arange a b)"
  by (simp add: arange_def)

lemma sum_list_upd_add:
  "i < length (cc :: real list) \<Longrightarrow> sum_list (cc[i := cc ! i + x]) = sum_list cc + x"
proof (induction cc arbitrary: i)
  case Nil
  then show ?case by simp
next
  case (Cons c cc)
  then show ?case by (cases i) auto
qed

lemma clustIdx_enum:
  "concat (map (\<lambda>(i, c). if k \<in> set c then [i] else []) (enumerate n cl))
     = filter (\<lambda>i. k \<in> set (cl ! (i - n))) [n..<n + length cl]"
proof (induction cl arbitrary: n)
  case Nil
  then show ?case by simp
next
  case (Cons c cl)
  have u: "[n..<n + length (c # cl)] = n # [Suc n..<Suc n + length cl]"
    by (simp add: upt_conv_Cons del: upt_Suc)
  have f: "filter (\<lambda>i. k \<in> set ((c # cl) ! (i - n))) [Suc n..<Suc n + length cl]
      = filter (\<lambda>i. k \<in> set (cl ! (i - Suc n))) [Suc n..<Suc n + length cl]"
    by (rule filter_cong) (auto simp: nth_Cons')
  have e: "enumerate n (c # cl) = (n, c) # enumerate (Suc n) cl" by simp
  have "concat (map (\<lambda>(i, c). if k \<in> set c then [i] else []) ((n, c) # enumerate (Suc n) cl))
     = (if k \<in> set c then [n] else []) @ filter (\<lambda>i. k \<in> set (cl ! (i - Suc n))) [Suc n..<Suc n + length cl]"
    using Cons.IH [of "Suc n"] by (simp del: upt_Suc)
  also have "\<dots> = filter (\<lambda>i. k \<in> set ((c # cl) ! (i - n))) (n # [Suc n..<Suc n + length cl])"
    using f by (simp del: upt_Suc)
  finally show ?case
    unfolding u e .
qed

lemma clustIdx_filter:
  "clustIdx cl k = filter (\<lambda>i. k \<in> set (cl ! i)) [0..<length cl]"
  using clustIdx_enum [of k 0 cl] by (simp add: clustIdx_def)

lemma clustIdx_single:
  assumes "clustIdx cl k = [i]"
  shows "i < length cl" "k \<in> set (cl ! i)" "j < length cl \<Longrightarrow> k \<in> set (cl ! j) \<Longrightarrow> j = i"
proof -
  have s: "set (clustIdx cl k) = {i}" using assms by simp
  then have "i \<in> {j. j < length cl \<and> k \<in> set (cl ! j)}"
    by (auto simp: clustIdx_filter)
  then show "i < length cl" "k \<in> set (cl ! i)" by auto
  assume "j < length cl" "k \<in> set (cl ! j)"
  then have "j \<in> set (clustIdx cl k)" by (simp add: clustIdx_filter)
  then show "j = i" using s by simp
qed

lemma clustIdx_unique:
  assumes "i < length cl" "k \<in> set (cl ! i)"
    and "\<And>j. j < length cl \<Longrightarrow> k \<in> set (cl ! j) \<Longrightarrow> j = i"
  shows "clustIdx cl k = [i]"
proof -
  have d: "distinct (clustIdx cl k)" by (simp add: clustIdx_filter)
  have m: "set (clustIdx cl k) = {j. j < length cl \<and> k \<in> set (cl ! j)}"
    by (auto simp: clustIdx_filter)
  have "{j. j < length cl \<and> k \<in> set (cl ! j)} = {i}"
  proof (rule set_eqI)
    fix j
    show "j \<in> {j. j < length cl \<and> k \<in> set (cl ! j)} \<longleftrightarrow> j \<in> {i}"
      using assms(1,2) assms(3) [of j] by blast
  qed
  with m have s: "set (clustIdx cl k) = {i}" by simp
  have "length (clustIdx cl k) = card {i}" using distinct_card [OF d] s by simp
  then have "length (clustIdx cl k) = Suc 0" by simp
  then obtain x where x: "clustIdx cl k = [x]" by (auto simp: length_Suc_conv)
  then have "x = i" using s by simp
  with x show ?thesis by simp
qed

lemma accumulate_total:
  assumes "\<forall>p \<in> set ps. \<exists>i. clustIdx cl (int (fst p)) = [i]" "length cc = length cl"
  shows "\<exists>cc'. accumulate cl cc ps = Inr cc' \<and> length cc' = length cl
           \<and> sum_list cc' = sum_list cc + sum_list (map snd ps)"
  using assms
proof (induction ps arbitrary: cc)
  case Nil
  then show ?case by simp
next
  case (Cons p ps)
  obtain k x where p: "p = (k, x)" by (cases p)
  from Cons.prems obtain i where i: "clustIdx cl (int k) = [i]" by (auto simp: p)
  then have il: "i < length cc" using clustIdx_single(1) Cons.prems(2) by metis
  let ?cc = "cc[i := cc ! i + x]"
  have "\<exists>cc'. accumulate cl ?cc ps = Inr cc' \<and> length cc' = length cl
           \<and> sum_list cc' = sum_list ?cc + sum_list (map snd ps)"
    using Cons.prems by (intro Cons.IH) auto
  moreover have "sum_list ?cc = sum_list cc + x"
    using il by (rule sum_list_upd_add)
  ultimately show ?case by (auto simp: p i)
qed

lemma accumulate_entry:
  assumes "\<forall>p \<in> set ps. \<exists>i. clustIdx cl (int (fst p)) = [i]" "length cc = length cl"
    "accumulate cl cc ps = Inr cc'" "j < length cl"
  shows "cc' ! j = cc ! j + sum_list [x. (k, x) \<leftarrow> ps, int k \<in> set (cl ! j)]"
  using assms
proof (induction ps arbitrary: cc)
  case Nil
  then show ?case by simp
next
  case (Cons p ps)
  obtain k x where p: "p = (k, x)" by (cases p)
  from Cons.prems obtain i where i: "clustIdx cl (int k) = [i]" by (auto simp: p)
  then have il: "i < length cc" using clustIdx_single(1) Cons.prems(2) by metis
  let ?cc = "cc[i := cc ! i + x]"
  have acc: "accumulate cl ?cc ps = Inr cc'" using Cons.prems(3) by (simp add: p i)
  have ih: "cc' ! j = ?cc ! j + sum_list [x. (k, x) \<leftarrow> ps, int k \<in> set (cl ! j)]"
    using Cons.prems acc by (intro Cons.IH) auto
  show ?case
  proof (cases "j = i")
    case True
    then have "int k \<in> set (cl ! j)" using clustIdx_single(2) [OF i] by simp
    then show ?thesis using ih il True by (simp add: p)
  next
    case False
    then have "int k \<notin> set (cl ! j)" using clustIdx_single(3) [OF i] Cons.prems(4) by blast
    then show ?thesis using ih il False by (simp add: p)
  qed
qed

lemma accumulate_zero:
  assumes "\<forall>p \<in> set ps. \<exists>i. clustIdx cl (int (fst p)) = [i]" "\<forall>p \<in> set ps. snd p = 0"
  shows "accumulate cl cc ps = Inr cc"
  using assms
proof (induction ps)
  case Nil
  then show ?case by simp
next
  case (Cons p ps)
  obtain k x where p: "p = (k, x)" by (cases p)
  from Cons.prems obtain i where i: "clustIdx cl (int k) = [i]" by (auto simp: p)
  have "x = 0" using Cons.prems(2) by (simp add: p)
  then show ?case using Cons by (simp add: p i)
qed

section \<open>The one-slot cache\<close>

text \<open>In a reachable state of an instance whose \<open>clusters\<close> method stores the bin
  count in \<open>_numCoeff\<close>, the cache is sound, so a call returns what a fresh computation
  returns.\<close>

lemma cache_ok_new: "cache_ok init new_symm"
  by (simp add: cache_ok_def new_symm_def)

lemma cache_ok_fresh:
  assumes "cache_ok init self"
  shows "(if stale self n then
            case init n of
              Inl e \<Rightarrow> (Inl e, self)
            | Inr cl \<Rightarrow> (Inr cl, upd cl)
          else (Inr (the (s_clusters self)), self)) =
         (init n, if stale self n then (case init n of Inl e \<Rightarrow> self | Inr cl \<Rightarrow> upd cl) else self)"
  using assms
  by (auto simp: cache_ok_def stale_def split: sum.splits option.splits)

lemma cache_ok_step:
  assumes "cache_ok init self"
  shows "cache_ok init
           (if stale self n then
              (case init n of Inl e \<Rightarrow> self
               | Inr cl \<Rightarrow> self\<lparr>s_clusters := Some cl, s_numCoeff := Some n\<rparr>)
            else self)"
  using assms
  by (auto simp: cache_ok_def stale_def split: sum.splits option.splits)

lemma Klems_cache: "reach Klems_clusters self \<Longrightarrow> cache_ok Klems_init self"
proof (induction rule: reach.induct)
  case reach_new
  show ?case by (rule cache_ok_new)
next
  case (reach_call self numCoeff)
  show ?case
    unfolding Klems_clusters_def cache_ok_fresh [OF reach_call.IH] snd_conv
    by (rule cache_ok_step [OF reach_call.IH])
qed

lemma Klems_fresh:
  assumes "reach Klems_clusters self"
  shows "fst (Klems_clusters self n) = Klems_init n"
  unfolding Klems_clusters_def cache_ok_fresh [OF Klems_cache [OF assms]] by simp

section \<open>Klems clusters\<close>

text \<open>
  C8. In every state of a \<open>KlemsSymmetry\<close> instance, \<open>clusters(145)\<close> returns exactly
  the four clusters \<open>{0}\<close>, \<open>[1,45)\<close>, \<open>[45,93)\<close> and \<open>[93,145)\<close>, of sizes 1, 44, 48
  and 52, and \<open>clusters(numCoeff)\<close> raises \<open>ValueError\<close> for every other \<open>numCoeff\<close>.
\<close>


theorem Klems_clusters_145:
  assumes "reach Klems_clusters self"
  shows "fst (Klems_clusters self 145) = Inr [[0], arange 1 45, arange 45 93, arange 93 145]
       \<and> map length [[0], arange 1 45, arange 45 93, arange 93 145] = [1, 44, 48, 52]
       \<and> (numCoeff \<noteq> 145 \<longrightarrow> fst (Klems_clusters self numCoeff) = Inl ValueError)"
  by (simp add: Klems_fresh [OF assms] Klems_init_def length_arange)

theorem Klems_clusters_145_witness:
  "fst (Klems_clusters (snd (Klems_clusters new_symm 145)) 145)
      = Inr [[0], arange 1 45, arange 45 93, arange 93 145]
   \<and> fst (Klems_clusters (snd (Klems_clusters new_symm 145)) 146) = Inl ValueError"
  using Klems_clusters_145 [OF reach_call [OF reach_new, of Klems_clusters 145], of 146]
  by simp


section \<open>Partitions and \<open>clusterCoeffs\<close>\<close>

lemma partition_clustIdx:
  assumes "partition_of cl n" "0 \<le> k" "k < n"
  shows "\<exists>i. clustIdx cl k = [i]"
proof -
  have "k \<in> (\<Union>c \<in> set cl. set c)" using assms by (simp add: partition_of_def)
  then obtain c where c: "c \<in> set cl" "k \<in> set c" by blast
  then obtain i where i: "i < length cl" "cl ! i = c" by (auto simp: in_set_conv_nth)
  have "clustIdx cl k = [i]"
  proof (rule clustIdx_unique)
    show "i < length cl" by (rule i(1))
    show "k \<in> set (cl ! i)" using i c by simp
    fix j assume j: "j < length cl" "k \<in> set (cl ! j)"
    show "j = i"
    proof (rule ccontr)
      assume "j \<noteq> i"
      then have "set (cl ! j) \<inter> set (cl ! i) = {}"
        using assms(1) i(1) j(1) by (simp add: partition_of_def)
      then show False using j(2) c(2) i(2) by blast
    qed
  qed
  then show ?thesis ..
qed

lemma partition_enumerate:
  assumes "partition_of cl (int (length coeffs))"
  shows "\<forall>p \<in> set (enumerate 0 coeffs). \<exists>i. clustIdx cl (int (fst p)) = [i]"
proof
  fix p assume "p \<in> set (enumerate 0 coeffs)"
  then have "fst p < length coeffs" by (auto simp: in_set_enumerate_eq)
  then show "\<exists>i. clustIdx cl (int (fst p)) = [i]"
    using partition_clustIdx [OF assms, of "int (fst p)"] by simp
qed

lemma sum_list_replicate_0: "sum_list (replicate n (0::real)) = 0"
  by (induction n) auto

lemma clusterCoeffs_result:
  assumes "coeffs \<noteq> []"
    and "fst (clusters self (int (length coeffs))) = Inr clustList"
    and "partition_of clustList (int (length coeffs))"
  shows "\<exists>cc. accumulate clustList (replicate (length clustList) 0) (enumerate 0 coeffs) = Inr cc
           \<and> length cc = length clustList \<and> sum_list cc = sum_list coeffs
           \<and> fst (clusterCoeffs clusters self coeffs)
               = Inr (map (\<lambda>c. np_div c (sum_list coeffs)) cc)"
proof -
  note pe = partition_enumerate [OF assms(3)]
  obtain cc where cc:
    "accumulate clustList (replicate (length clustList) 0) (enumerate 0 coeffs) = Inr cc"
    "length cc = length clustList"
    "sum_list cc = sum_list (replicate (length clustList) 0) + sum_list (map snd (enumerate 0 coeffs))"
    using accumulate_total [OF pe, of "replicate (length clustList) 0"] by auto
  have s: "sum_list cc = sum_list coeffs"
    using cc(3) by (simp add: sum_list_replicate_0)
  obtain self' where cl: "clusters self (int (length coeffs)) = (Inr clustList, self')"
    using assms(2) by (cases "clusters self (int (length coeffs))") auto
  have "fst (clusterCoeffs clusters self coeffs) = Inr (map (\<lambda>c. np_div c (sum_list coeffs)) cc)"
    using assms(1) by (simp add: clusterCoeffs_def cl cc(1) s)
  with cc s show ?thesis by blast
qed


lemma distinct_concat_lt:
  "distinct (concat cl) \<Longrightarrow> i < j \<Longrightarrow> j < length cl \<Longrightarrow> set (cl ! i) \<inter> set (cl ! j) = {}"
proof (induction cl arbitrary: i j)
  case Nil
  then show ?case by simp
next
  case (Cons c cl)
  obtain j' where j': "j = Suc j'" using Cons.prems(2) by (cases j) auto
  show ?case
  proof (cases i)
    case 0
    have "cl ! j' \<in> set cl" using Cons.prems(3) j' by simp
    then have "set (cl ! j') \<subseteq> set (concat cl)" by auto
    moreover have "set c \<inter> set (concat cl) = {}" using Cons.prems(1) by simp
    ultimately show ?thesis using 0 j' by auto
  next
    case (Suc i')
    then show ?thesis using Cons j' by simp
  qed
qed

lemma partition_of_concat:
  assumes "distinct (concat cl)" "set (concat cl) = {0..<n}"
  shows "partition_of cl n"
proof -
  have "set (cl ! i) \<inter> set (cl ! j) = {}" if "i < length cl" "j < length cl" "i \<noteq> j" for i j
  proof (cases "i < j")
    case True
    then show ?thesis using distinct_concat_lt [OF assms(1), of i j] that by simp
  next
    case False
    then have "j < i" using that by simp
    then show ?thesis using distinct_concat_lt [OF assms(1), of j i] that by blast
  qed
  then show ?thesis using assms(2) by (simp add: partition_of_def)
qed

lemma Klems_partition: "partition_of [[0], arange 1 45, arange 45 93, arange 93 145] 145"
  by (rule partition_of_concat) (auto simp: set_arange distinct_arange)

text \<open>
  C5. Let the coefficient vector be non-empty, non-negative and not all zero, and valid
  for the active symmetry policy: the policy's \<open>clusters\<close> returns, for the length of
  the vector, a partition of the bins. Then \<open>clusterCoeffs\<close> returns a vector of finite
  numbers, one per cluster, that sums to 1 (exactly, in real arithmetic, hence within
  \<open>1e-9\<close>); each entry is the sum of the coefficients of the cluster's bins divided by
  the grand total.
\<close>

theorem clusterCoeffs_normalised:
  assumes "coeffs \<noteq> []"
    and "fst (clusters self (int (length coeffs))) = Inr clustList"
    and "partition_of clustList (int (length coeffs))"
    and "\<forall>c \<in> set coeffs. 0 \<le> c"
    and "\<exists>c \<in> set coeffs. c \<noteq> 0"
  shows "\<exists>out. fst (clusterCoeffs clusters self coeffs) = Inr (map Finite out)
           \<and> length out = length clustList
           \<and> sum_list out = 1 \<and> \<bar>sum_list out - 1\<bar> \<le> 1 / 10 ^ 9
           \<and> (\<forall>j < length clustList.
                 out ! j = sum_list [x. (k, x) \<leftarrow> enumerate 0 coeffs, int k \<in> set (clustList ! j)]
                           / sum_list coeffs)"
proof -
  obtain cc where cc:
    "accumulate clustList (replicate (length clustList) 0) (enumerate 0 coeffs) = Inr cc"
    "length cc = length clustList" "sum_list cc = sum_list coeffs"
    "fst (clusterCoeffs clusters self coeffs) = Inr (map (\<lambda>c. np_div c (sum_list coeffs)) cc)"
    using clusterCoeffs_result [of coeffs clusters self clustList] assms(1-3) by blast
  have "0 \<le> sum_list coeffs" using assms(4) by (simp add: sum_list_nonneg)
  moreover have "sum_list coeffs \<noteq> 0"
    using assms(4,5) by (auto simp: sum_list_nonneg_eq_0_iff)
  ultimately have pos: "0 < sum_list coeffs" by simp
  let ?out = "map (\<lambda>c. c / sum_list coeffs) cc"
  have 1: "fst (clusterCoeffs clusters self coeffs) = Inr (map Finite ?out)"
    using pos by (simp add: cc(4) np_div_def)
  have 2: "length ?out = length clustList" by (simp add: cc(2))
  have "sum_list ?out = sum_list cc / sum_list coeffs"
    by (induction cc) (auto simp: add_divide_distrib)
  then have 3: "sum_list ?out = 1" using pos by (simp add: cc(3))
  have 4: "?out ! j = sum_list [x. (k, x) \<leftarrow> enumerate 0 coeffs, int k \<in> set (clustList ! j)]
                      / sum_list coeffs" if "j < length clustList" for j
    using accumulate_entry [OF partition_enumerate [OF assms(3)] _ cc(1) that] that cc(2)
    by simp
  from 1 2 3 4 show ?thesis by (intro exI [of _ ?out]) simp
qed

theorem clusterCoeffs_normalised_witness:
  "\<exists>out. fst (clusterCoeffs Klems_clusters new_symm (replicate 145 1)) = Inr (map Finite out)
         \<and> length out = 4 \<and> sum_list out = 1"
proof -
  have "fst (Klems_clusters new_symm (int (length (replicate 145 (1::real)))))
          = Inr [[0], arange 1 45, arange 45 93, arange 93 145]"
    by (simp add: Klems_fresh [OF reach_new] Klems_init_def)
  moreover have "partition_of [[0], arange 1 45, arange 45 93, arange 93 145]
                   (int (length (replicate 145 (1::real))))"
    using Klems_partition by simp
  ultimately show ?thesis
    using clusterCoeffs_normalised [of "replicate 145 1" Klems_clusters new_symm
            "[[0], arange 1 45, arange 45 93, arange 93 145]"]
    by auto
qed

text \<open>
  With 145 coefficients that are all zero, \<open>KlemsSymmetry.clusterCoeffs\<close> raises nothing:
  it divides by the zero total and returns four NaN.
\<close>

theorem clusterCoeffs_zero_total_counterexample:
  "fst (clusterCoeffs Klems_clusters new_symm (replicate 145 0)) = Inr [NaN, NaN, NaN, NaN]"
proof -
  have k: "fst (Klems_clusters new_symm (int (length (replicate 145 (0::real)))))
          = Inr [[0], arange 1 45, arange 45 93, arange 93 145]"
    by (simp add: Klems_fresh [OF reach_new] Klems_init_def)
  have p: "partition_of [[0], arange 1 45, arange 45 93, arange 93 145]
                   (int (length (replicate 145 (0::real))))"
    using Klems_partition by simp
  have z: "\<forall>p \<in> set (enumerate 0 (replicate 145 (0::real))). snd p = 0"
    by (auto simp: in_set_enumerate_eq)
  have a: "accumulate [[0], arange 1 45, arange 45 93, arange 93 145] [0, 0, 0, 0]
             (enumerate 0 (replicate 145 0)) = Inr [0, 0, 0, 0]"
    by (rule accumulate_zero [OF partition_enumerate [OF p] z])
  obtain self' where cl: "Klems_clusters new_symm 145
      = (Inr [[0], arange 1 45, arange 45 93, arange 93 145], self')"
    using k by (cases "Klems_clusters new_symm 145") auto
  show ?thesis
    using a by (simp add: clusterCoeffs_def cl np_div_def)
qed

text \<open>
  C6, as the code behaves. When the grand total of the accumulated cluster sums is zero,
  \<open>clusterCoeffs\<close> performs the final division all the same: it raises no error and
  returns a vector, one entry per cluster, in which every entry is NaN or an infinity.
\<close>

theorem clusterCoeffs_zero_total:
  assumes "coeffs \<noteq> []"
    and "fst (clusters self (int (length coeffs))) = Inr clustList"
    and "partition_of clustList (int (length coeffs))"
    and "sum_list coeffs = 0"
  shows "\<exists>out. fst (clusterCoeffs clusters self coeffs) = Inr out
           \<and> length out = length clustList
           \<and> (\<forall>x \<in> set out. x = NaN \<or> x = PosInf \<or> x = NegInf)"
proof -
  obtain cc where cc:
    "length cc = length clustList"
    "fst (clusterCoeffs clusters self coeffs) = Inr (map (\<lambda>c. np_div c (sum_list coeffs)) cc)"
    using clusterCoeffs_result [of coeffs clusters self clustList] assms(1-3) by blast
  show ?thesis
    using cc assms(4) by (auto simp: np_div_def)
qed

theorem clusterCoeffs_zero_total_witness:
  "\<exists>out. fst (clusterCoeffs Klems_clusters new_symm (replicate 145 0)) = Inr out
         \<and> length out = 4 \<and> Finite 0 \<notin> set out"
proof -
  have "fst (Klems_clusters new_symm (int (length (replicate 145 (0::real)))))
          = Inr [[0], arange 1 45, arange 45 93, arange 93 145]"
    by (simp add: Klems_fresh [OF reach_new] Klems_init_def)
  moreover have "partition_of [[0], arange 1 45, arange 45 93, arange 93 145]
                   (int (length (replicate 145 (0::real))))"
    using Klems_partition by simp
  moreover have "sum_list (replicate 145 (0::real)) = 0"
    by (rule sum_list_replicate_0)
  ultimately show ?thesis
    using clusterCoeffs_zero_total [of "replicate 145 0" Klems_clusters new_symm
            "[[0], arange 1 45, arange 45 93, arange 93 145]"]
    by auto
qed


section \<open>Reinhart patches\<close>

lemma rint_of_int: "rint (of_int k) = k"
  by (simp add: rint_def)

lemma pyint_half: "0 \<le> z \<Longrightarrow> pyint (of_int z + 0.5) = z"
  unfolding pyint_def by (simp add: floor_eq_iff)

lemma floor_half_div:
  assumes "0 \<le> r" "1 \<le> MF"
  shows "\<lfloor>(real_of_int r + 0.5) / real_of_int MF\<rfloor> = r div MF"
proof -
  have m: "0 \<le> r mod MF" "r mod MF < MF" using assms by simp_all
  then have m': "r mod MF + 1 \<le> MF" by simp
  have r: "real_of_int r = real_of_int (r div MF) * real_of_int MF + real_of_int (r mod MF)"
    by (metis of_int_add of_int_mult div_mult_mod_eq)
  have pos: "0 < real_of_int MF" using assms by simp
  have "(real_of_int r + 0.5) / real_of_int MF
        = real_of_int (r div MF) + (real_of_int (r mod MF) + 0.5) / real_of_int MF"
    using pos by (subst r) (simp add: field_simps)
  moreover have "0 \<le> (real_of_int (r mod MF) + 0.5) / real_of_int MF"
    using pos m(1) by simp
  moreover have "(real_of_int (r mod MF) + 0.5) / real_of_int MF < 1"
  proof -
    have "real_of_int (r mod MF) + 1 \<le> real_of_int MF" using m' by linarith
    then show ?thesis using pos by simp
  qed
  ultimately show ?thesis by (simp add: floor_eq_iff)
qed

lemma collect_map:
  "(\<And>x. x \<in> set xs \<Longrightarrow> f x = Inr (g x)) \<Longrightarrow> collect f xs = Inr (map g xs)"
  by (induction xs) auto

lemma tnaz_get: "0 \<le> q \<Longrightarrow> q < 7 \<Longrightarrow> pyget tnaz q = Inr (tnaz ! nat q)"
  by (simp add: pyget_def tnaz_def)

lemma sqrt_basis: "0 \<le> MF \<Longrightarrow> sqrt (real_of_int (144 * MF\<^sup>2 + 1 - 1) / 144) = real_of_int MF"
  by (simp add: real_sqrt_unique)

lemma patches_ok:
  assumes "1 \<le> MF"
  shows "patches (144 * MF\<^sup>2 + 1) = Inr (7 * MF, rnaz_of MF, racc_of MF)"
proof -
  have MF0: "0 \<le> MF" using assms by simp
  have n1: "\<not> 144 * MF\<^sup>2 + 1 < 1" by simp
  have rt: "rint (sqrt (real_of_int (144 * MF\<^sup>2 + 1 - 1) / 144)) = MF"
    by (simp only: sqrt_basis [OF MF0] rint_of_int)
  have "real_of_int MF * 7 + 0.5 \<noteq> 0" using MF0 by (simp add: add_nonneg_eq_0_iff)
  then have "90 / (90 / (real_of_int MF * 7 + 0.5)) = of_int (7 * MF) + 0.5"
    by (simp add: mult.commute)
  then have rr: "pyint (90 / (90 / (real_of_int MF * 7 + 0.5))) = 7 * MF"
    using pyint_half [of "7 * MF"] MF0 by (simp only:)
  have col: "collect
          (\<lambda>r. case pyget tnaz \<lfloor>(real_of_int r + 0.5) / real_of_int MF\<rfloor> of
                  Inl e \<Rightarrow> Inl e
                | Inr t \<Rightarrow> Inr (MF * t))
          (arange 0 (7 * MF)) = Inr (rnaz_of MF)"
    unfolding rnaz_of_def
  proof (rule collect_map)
    fix r assume "r \<in> set (arange 0 (7 * MF))"
    then have r: "0 \<le> r" "r < 7 * MF" by (auto simp: set_arange)
    have q0: "0 \<le> r div MF"
      using r assms by (simp add: pos_imp_zdiv_nonneg_iff)
    have q7: "r div MF < 7"
    proof (rule ccontr)
      assume "\<not> r div MF < 7"
      then have "7 * MF \<le> (r div MF) * MF" using assms by (simp add: mult_right_mono)
      moreover have "(r div MF) * MF + r mod MF = r" by simp
      moreover have "0 \<le> r mod MF" using assms by simp
      ultimately show False using r(2) by linarith
    qed
    note q = q0 q7
    show "(case pyget tnaz \<lfloor>(real_of_int r + 0.5) / real_of_int MF\<rfloor> of
             Inl e \<Rightarrow> Inl e | Inr t \<Rightarrow> Inr (MF * t)) = Inr (MF * tnaz ! nat (r div MF))"
      by (simp only: floor_half_div [OF r(1) assms] tnaz_get [OF q] sum.case)
  qed
  have ne: "rnaz_of MF \<noteq> []"
    using assms by (simp add: rnaz_of_def arange_def)
  then obtain x xs where x: "rnaz_of MF = x # xs" by (cases "rnaz_of MF") auto
  show ?thesis
    unfolding patches_def
    apply (simp only: n1 rt if_False Let_def rr col sum.case)
    apply (simp add: racc_of_def x)
    done
qed

lemma patches_1: "patches 1 = Inl IndexError"
proof -
  have "pyint (90 / (90 / 0.5)) = 0" by (simp add: pyint_def)
  then show ?thesis
    by (simp add: patches_def rint_def arange_def)
qed

lemma patches_check_fail:
  assumes "\<not> numCoeff < 1"
    and "(rint (sqrt (real_of_int (numCoeff - 1) / 144)))\<^sup>2 * 144 + 1 \<noteq> numCoeff"
  shows "patches numCoeff = Inl ValueError"
  using assms by (simp add: patches_def Let_def)

lemma patches_shape:
  assumes "patches numCoeff = Inr res"
  shows "\<exists>MF. numCoeff = 144 * MF\<^sup>2 + 1"
proof -
  define MF where "MF = rint (sqrt (real_of_int (numCoeff - 1) / 144))"
  have "MF\<^sup>2 * 144 + 1 = numCoeff"
  proof (rule ccontr)
    assume "MF\<^sup>2 * 144 + 1 \<noteq> numCoeff"
    moreover have "\<not> numCoeff < 1"
      using assms by (auto simp: patches_def split: if_splits)
    ultimately have "patches numCoeff = Inl ValueError"
      unfolding MF_def by (intro patches_check_fail)
    with assms show False by simp
  qed
  then have "numCoeff = 144 * MF\<^sup>2 + 1" by simp
  then show ?thesis ..
qed

lemma patches_invalid:
  assumes "\<forall>MF\<ge>0. numCoeff \<noteq> 144 * MF\<^sup>2 + 1"
  shows "patches numCoeff = Inl ValueError"
proof (cases "numCoeff < 1")
  case True
  then show ?thesis by (simp add: patches_def)
next
  case False
  define MF where "MF = rint (sqrt (real_of_int (numCoeff - 1) / 144))"
  have "numCoeff \<noteq> 144 * \<bar>MF\<bar>\<^sup>2 + 1" using assms [rule_format, of "\<bar>MF\<bar>"] by simp
  then have "MF\<^sup>2 * 144 + 1 \<noteq> numCoeff" by auto
  then show ?thesis
    unfolding MF_def using False by (intro patches_check_fail)
qed


text \<open>
  \<open>numCoeff = 1\<close> is \<open>144 * MF^2 + 1\<close> for \<open>MF = 0\<close> and passes the consistency check,
  but \<open>patches(1)\<close> does not return: with no rows, \<open>racc[0] = rnaz[0]\<close> raises
  \<open>IndexError\<close>.
\<close>

theorem patches_basis_size_counterexample:
  "(1::int) = 144 * 0\<^sup>2 + 1 \<and> patches 1 = Inl IndexError"
  by (simp add: patches_1)

text \<open>
  C3, as the code behaves. \<open>patches(numCoeff)\<close> returns normally if and only if
  \<open>numCoeff = 144 * MF^2 + 1\<close> for some positive integer \<open>MF\<close> (so it succeeds for 145
  and 2305 and fails for 146); for every \<open>numCoeff\<close> that is not \<open>144 * MF^2 + 1\<close> for
  any non-negative integer \<open>MF\<close> it raises \<open>ValueError\<close>; and for a valid \<open>numCoeff\<close>
  the subdivision factor is recovered as \<open>round(sqrt((numCoeff - 1) / 144))\<close>.
\<close>

theorem patches_basis_size:
  "((\<exists>res. patches numCoeff = Inr res) \<longleftrightarrow> (\<exists>MF\<ge>1. numCoeff = 144 * MF\<^sup>2 + 1))
   \<and> ((\<forall>MF\<ge>0. numCoeff \<noteq> 144 * MF\<^sup>2 + 1) \<longrightarrow> patches numCoeff = Inl ValueError)
   \<and> (\<forall>MF\<ge>1. numCoeff = 144 * MF\<^sup>2 + 1 \<longrightarrow>
          rint (sqrt (real_of_int (numCoeff - 1) / 144)) = MF)"
proof (intro conjI iffI allI impI)
  assume "\<exists>res. patches numCoeff = Inr res"
  then obtain res where res: "patches numCoeff = Inr res" ..
  then obtain MF where MF: "numCoeff = 144 * MF\<^sup>2 + 1" using patches_shape by blast
  have "MF \<noteq> 0" using res MF patches_1 by auto
  then have "1 \<le> \<bar>MF\<bar>" by simp
  moreover have "numCoeff = 144 * \<bar>MF\<bar>\<^sup>2 + 1" using MF by simp
  ultimately show "\<exists>MF\<ge>1. numCoeff = 144 * MF\<^sup>2 + 1" by blast
next
  assume "\<exists>MF\<ge>1. numCoeff = 144 * MF\<^sup>2 + 1"
  then show "\<exists>res. patches numCoeff = Inr res" using patches_ok by blast
next
  assume "\<forall>MF\<ge>0. numCoeff \<noteq> 144 * MF\<^sup>2 + 1"
  then show "patches numCoeff = Inl ValueError" by (rule patches_invalid)
next
  fix MF :: int
  assume "1 \<le> MF" "numCoeff = 144 * MF\<^sup>2 + 1"
  then show "rint (sqrt (real_of_int (numCoeff - 1) / 144)) = MF"
    using sqrt_basis [of MF] by (simp only: rint_of_int) 
qed

theorem patches_basis_size_witness:
  "(\<exists>res. patches 145 = Inr res) \<and> (\<exists>res. patches 2305 = Inr res)
   \<and> patches 146 = Inl ValueError
   \<and> rint (sqrt (real_of_int (2305 - 1) / 144)) = 4"
proof -
  have a: "\<exists>MF\<ge>1. (145::int) = 144 * MF\<^sup>2 + 1" by (intro exI [of _ 1]) simp
  have b: "\<exists>MF\<ge>1. (2305::int) = 144 * MF\<^sup>2 + 1" by (intro exI [of _ 4]) simp
  have c: "\<forall>MF\<ge>0. (146::int) \<noteq> 144 * MF\<^sup>2 + 1"
  proof (intro allI impI notI)
    fix MF :: int assume "146 = 144 * MF\<^sup>2 + 1"
    then have "(144 * MF\<^sup>2) mod 144 = (145::int) mod 144" by simp
    then show False by simp
  qed
  have d: "(1::int) \<le> 4 \<and> (2305::int) = 144 * 4\<^sup>2 + 1" by simp
  show ?thesis
    using patches_basis_size [of 145] patches_basis_size [of 2305] patches_basis_size [of 146]
      a b c d by blast
qed


section \<open>Row clusters of the Reinhart basis\<close>

lemma arange_append: "a \<le> b \<Longrightarrow> b \<le> c \<Longrightarrow> arange a c = arange a b @ arange b c"
proof (cases "b = c")
  case True
  then show ?thesis by (simp add: arange_def)
next
  case False
  assume "a \<le> b" "b \<le> c"
  with False show ?thesis
    unfolding arange_def using upto_split1 [of a b "c - 1"] by simp
qed

lemma arange_snoc: "a \<le> b \<Longrightarrow> arange a (b + 1) = arange a b @ [b]"
  unfolding arange_def using upto_rec2 [of a b] by simp

lemma length_cumulate: "length (cumulate a xs) = length xs"
  by (induction xs arbitrary: a) auto

lemma last_cumulate: "xs \<noteq> [] \<Longrightarrow> last (cumulate a xs) = a + sum_list xs"
proof (induction xs arbitrary: a)
  case Nil
  then show ?case by simp
next
  case (Cons x xs)
  then show ?case by (cases xs) auto
qed

lemma cumulate_lower: "\<forall>x \<in> set xs. 0 \<le> x \<Longrightarrow> y \<in> set (cumulate a xs) \<Longrightarrow> a \<le> y"
proof (induction xs arbitrary: a)
  case Nil
  then show ?case by simp
next
  case (Cons x xs)
  then show ?case by fastforce
qed

lemma sorted_cumulate: "\<forall>x \<in> set xs. 0 \<le> x \<Longrightarrow> sorted (cumulate a xs)"
proof (induction xs arbitrary: a)
  case Nil
  then show ?case by simp
next
  case (Cons x xs)
  then show ?case using cumulate_lower [of xs _ "a + x"] by auto
qed

lemma sorted_le_last:
  assumes "sorted (xs :: int list)" "y \<in> set xs"
  shows "y \<le> last xs"
proof -
  obtain i where i: "i < length xs" "xs ! i = y" using assms(2) by (auto simp: in_set_conv_nth)
  have ne: "xs \<noteq> []" using assms(2) by auto
  have "xs ! i \<le> xs ! (length xs - 1)"
    using assms(1) i(1) by (intro sorted_nth_mono) auto
  then show ?thesis using i(2) ne by (simp add: last_conv_nth)
qed

lemma rows_concat:
  assumes "bs \<noteq> []" "sorted bs" "0 \<le> hd bs"
  shows "concat (arange 0 (bs ! 0) #
                 map (\<lambda>i. arange (bs ! nat (i - 1)) (bs ! nat i)) (arange 1 (int (length bs))))
         = arange 0 (last bs)"
  using assms
proof (induction bs rule: rev_nonempty_induct)
  case (single b)
  then show ?case by (simp add: arange_def)
next
  case (snoc b bs)
  have s: "sorted bs" using snoc.prems(1) by (simp add: sorted_append)
  have h: "0 \<le> hd bs" using snoc.prems(2) snoc.hyps(1) by simp
  have lb: "last bs \<le> b" using snoc.prems(1) snoc.hyps(1) by (simp add: sorted_append)
  have l0: "0 \<le> last bs"
  proof -
    have "hd bs \<in> set bs" using snoc.hyps(1) by simp
    then have "hd bs \<le> last bs" using s by (rule sorted_le_last [rotated])
    with h show ?thesis by simp
  qed
  have len: "1 \<le> int (length bs)" using snoc.hyps(1) by (cases bs) auto
  have m: "map (\<lambda>i. arange ((bs @ [b]) ! nat (i - 1)) ((bs @ [b]) ! nat i)) (arange 1 (int (length bs)))
         = map (\<lambda>i. arange (bs ! nat (i - 1)) (bs ! nat i)) (arange 1 (int (length bs)))"
    by (rule map_cong) (auto simp: set_arange nth_append)
  have n0: "(bs @ [b]) ! 0 = bs ! 0" using snoc.hyps(1) by (simp add: nth_append)
  have nl: "(bs @ [b]) ! nat (int (length bs) - 1) = last bs"
    using snoc.hyps(1) by (simp add: nth_append last_conv_nth nat_diff_distrib')
  have "concat (arange 0 ((bs @ [b]) ! 0) #
          map (\<lambda>i. arange ((bs @ [b]) ! nat (i - 1)) ((bs @ [b]) ! nat i))
            (arange 1 (int (length (bs @ [b])))))
        = concat (arange 0 (bs ! 0) #
            map (\<lambda>i. arange (bs ! nat (i - 1)) (bs ! nat i)) (arange 1 (int (length bs))))
          @ arange (last bs) b"
    using arange_snoc [OF len] by (simp add: m n0 nl add.commute)
  also have "\<dots> = arange 0 (last bs) @ arange (last bs) b"
    using snoc.IH [OF s h] by simp
  also have "\<dots> = arange 0 b" using arange_append [OF l0 lb] by simp
  finally show ?case by simp
qed

lemma clust_rows_concat:
  assumes "racc \<noteq> []" "sorted racc" "0 \<le> hd racc" "r_row + 1 = int (length racc)"
  shows "distinct (concat (clust_rows r_row racc))"
    and "set (concat (clust_rows r_row racc)) = {0..<last racc}"
    and "length (clust_rows r_row racc) = length racc"
proof -
  let ?rows = "arange 0 (racc ! 0) #
     map (\<lambda>i. arange (racc ! nat (i - 1)) (racc ! nat i)) (arange 1 (int (length racc)))"
  have c: "clust_rows r_row racc = rev ?rows" by (simp add: clust_rows_def assms(4))
  have r: "concat ?rows = arange 0 (last racc)" by (rule rows_concat [OF assms(1-3)])
  show "distinct (concat (clust_rows r_row racc))"
    unfolding c distinct_concat_rev r by (rule distinct_arange)
  have "set (concat (rev ?rows)) = set (concat ?rows)" by auto
  then show "set (concat (clust_rows r_row racc)) = {0..<last racc}"
    unfolding c r by (simp add: set_arange)
  show "length (clust_rows r_row racc) = length racc"
    using assms(1) unfolding c by (cases racc) (auto simp: length_arange)
qed



lemma tnaz_nonneg: "q < 7 \<Longrightarrow> 0 \<le> tnaz ! q"
proof -
  assume "q < 7"
  then have "q \<in> {0, 1, 2, 3, 4, 5, 6}" by auto
  then show ?thesis by (auto simp: tnaz_def)
qed

lemma div_block:
  assumes "1 \<le> (MF::int)" "q * MF \<le> r" "r < (q + 1) * MF"
  shows "r div MF = q"
proof -
  have "r = MF * q + (r - q * MF)" by (simp add: mult.commute)
  moreover have "0 \<le> r - q * MF" using assms by simp
  moreover have "r - q * MF < MF" using assms by (simp add: algebra_simps)
  ultimately show ?thesis using int_div_pos_eq [of r MF q "r - q * MF"] by simp
qed

lemma rnaz_block:
  assumes "1 \<le> MF" "0 \<le> q"
  shows "map (\<lambda>r. MF * tnaz ! nat (r div MF)) (arange (q * MF) ((q + 1) * MF))
         = replicate (nat MF) (MF * tnaz ! nat q)"
proof -
  have "map (\<lambda>r. MF * tnaz ! nat (r div MF)) (arange (q * MF) ((q + 1) * MF))
        = map (\<lambda>r. MF * tnaz ! nat q) (arange (q * MF) ((q + 1) * MF))"
    by (rule map_cong) (auto simp: set_arange div_block [OF assms(1)])
  also have "\<dots> = replicate (nat MF) (MF * tnaz ! nat q)"
    by (simp add: map_replicate_const length_arange algebra_simps)
  finally show ?thesis .
qed

lemma rnaz_of_blocks:
  assumes "1 \<le> MF"
  shows "rnaz_of MF = concat (map (\<lambda>t. replicate (nat MF) (MF * t)) tnaz)"
proof -
  have le: "k * MF \<le> (k + 1) * MF" for k using assms by (simp add: algebra_simps)
  have sp: "0 \<le> k \<Longrightarrow> arange 0 ((k + 1) * MF) = arange 0 (k * MF) @ arange (k * MF) ((k + 1) * MF)" for k
    using assms by (intro arange_append) (simp_all add: algebra_simps)
  have "arange 0 (7 * MF) = arange (0 * MF) ((0 + 1) * MF) @ arange (1 * MF) ((1 + 1) * MF)
      @ arange (2 * MF) ((2 + 1) * MF) @ arange (3 * MF) ((3 + 1) * MF)
      @ arange (4 * MF) ((4 + 1) * MF) @ arange (5 * MF) ((5 + 1) * MF)
      @ arange (6 * MF) ((6 + 1) * MF)"
    using sp [of 6] sp [of 5] sp [of 4] sp [of 3] sp [of 2] sp [of 1] by simp
  then show ?thesis
    unfolding rnaz_of_def
    using rnaz_block [OF assms, of 0] rnaz_block [OF assms, of 1] rnaz_block [OF assms, of 2]
      rnaz_block [OF assms, of 3] rnaz_block [OF assms, of 4] rnaz_block [OF assms, of 5]
      rnaz_block [OF assms, of 6]
    by (simp add: tnaz_def)
qed

lemma rnaz_of_facts:
  assumes "1 \<le> MF"
  shows "sum_list (rnaz_of MF) = 144 * MF\<^sup>2" "\<forall>x \<in> set (rnaz_of MF). 0 \<le> x"
    "length (rnaz_of MF) = nat (7 * MF)" "rnaz_of MF \<noteq> []"
proof -
  show "sum_list (rnaz_of MF) = 144 * MF\<^sup>2"
    using assms by (simp add: rnaz_of_blocks tnaz_def sum_list_replicate power2_eq_square)
  show "\<forall>x \<in> set (rnaz_of MF). 0 \<le> x"
    using assms by (auto simp: rnaz_of_blocks tnaz_def)
  show l: "length (rnaz_of MF) = nat (7 * MF)" by (simp add: rnaz_of_def length_arange)
  show "rnaz_of MF \<noteq> []" using l assms by auto
qed

lemma racc_of_facts:
  assumes "1 \<le> MF"
  shows "racc_of MF \<noteq> []" "sorted (racc_of MF)" "0 \<le> hd (racc_of MF)"
    "7 * MF + 1 = int (length (racc_of MF))" "last (racc_of MF) = 144 * MF\<^sup>2 + 1"
proof -
  note r = rnaz_of_facts [OF assms]
  let ?c = "cumulate 0 (rnaz_of MF)"
  have ne: "?c \<noteq> []" using r(4) by (cases "rnaz_of MF") auto
  show "racc_of MF \<noteq> []" by (simp add: racc_of_def)
  have "\<forall>y \<in> set ?c. y \<le> last ?c + 1"
    using sorted_le_last [OF sorted_cumulate [OF r(2), of 0]] by fastforce
  then show "sorted (racc_of MF)"
    using sorted_cumulate [OF r(2), of 0] by (simp add: racc_of_def sorted_append)
  have "0 \<le> hd ?c" using cumulate_lower [OF r(2), of "hd ?c" 0] ne by simp
  then show "0 \<le> hd (racc_of MF)" using ne by (simp add: racc_of_def)
  show "7 * MF + 1 = int (length (racc_of MF))"
    using assms by (simp add: racc_of_def length_cumulate r(3))
  show "last (racc_of MF) = 144 * MF\<^sup>2 + 1"
    by (simp add: racc_of_def last_cumulate [OF r(4)] r(1))
qed

lemma Rot_init_ok:
  assumes "1 \<le> MF"
  shows "Rot_init (144 * MF\<^sup>2 + 1) = Inr (clust_rows (7 * MF) (racc_of MF))"
    and "partition_of (clust_rows (7 * MF) (racc_of MF)) (144 * MF\<^sup>2 + 1)"
    and "length (clust_rows (7 * MF) (racc_of MF)) = nat (7 * MF + 1)"
proof -
  note f = racc_of_facts [OF assms]
  note c = clust_rows_concat [OF f(1-4)]
  show "Rot_init (144 * MF\<^sup>2 + 1) = Inr (clust_rows (7 * MF) (racc_of MF))"
    by (simp add: Rot_init_def patches_ok [OF assms])
  show "partition_of (clust_rows (7 * MF) (racc_of MF)) (144 * MF\<^sup>2 + 1)"
    using c(1,2) by (intro partition_of_concat) (simp_all add: f(5))
  show "length (clust_rows (7 * MF) (racc_of MF)) = nat (7 * MF + 1)"
    using c(3) f(4) by simp
qed

section \<open>Curve clusters\<close>

lemma rows_of_ok:
  assumes "b \<le> length cl"
  shows "rows_of cl a b = Inr (concat (map (nth cl) [a..<b]))"
proof -
  have "collect (\<lambda>i. pyget cl (int i)) [a..<b] = Inr (map (nth cl) [a..<b])"
    using assms by (intro collect_map) (simp add: pyget_def)
  then show ?thesis by (simp add: rows_of_def)
qed

lemma Curve_collect:
  assumes "29 \<le> length cl"
  shows "collect (\<lambda>(a, b). rows_of cl a b) CLUST_rows
         = Inr (map (\<lambda>(a, b). concat (map (nth cl) [a..<b])) CLUST_rows)"
proof (rule collect_map)
  fix x assume "x \<in> set CLUST_rows"
  then have "snd x \<le> 29" by (auto simp: CLUST_rows_def)
  then have "snd x \<le> length cl" using assms by simp
  then show "(case x of (a, b) \<Rightarrow> rows_of cl a b)
             = Inr (case x of (a, b) \<Rightarrow> concat (map (nth cl) [a..<b]))"
    by (cases x) (simp add: rows_of_ok)
qed

lemma Curve_concat:
  assumes "29 \<le> length cl"
  shows "concat (map (\<lambda>(a, b). concat (map (nth cl) [a..<b])) CLUST_rows) = concat (take 29 cl)"
proof -
  have "concat (map (\<lambda>(a, b). concat (map (nth cl) [a..<b])) CLUST_rows)
        = concat (map (nth cl) (concat (map (\<lambda>(a, b). [a..<b]) CLUST_rows)))"
    by (simp add: CLUST_rows_def del: upt_Suc)
  also have "concat (map (\<lambda>(a, b). [a..<b]) CLUST_rows) = [0..<29]"
    unfolding CLUST_rows_def by code_simp
  also have "map (nth cl) [0..<29] = take 29 cl"
  proof -
    have "map (nth (take 29 cl)) [0..<length (take 29 cl)] = take 29 cl" by (rule map_nth)
    moreover have "length (take 29 cl) = 29" using assms by simp
    moreover have "map (nth (take 29 cl)) [0..<29] = map (nth cl) [0..<29]"
      by (rule map_cong) simp_all
    ultimately show ?thesis by (simp only:)
  qed
  finally show ?thesis .
qed

lemma Curve_init_2305:
  "Curve_init 2305 = Inr (map (\<lambda>(a, b). concat (map (nth (clust_rows 28 (racc_of 4))) [a..<b]))
                            CLUST_rows)"
  "partition_of (map (\<lambda>(a, b). concat (map (nth (clust_rows 28 (racc_of 4))) [a..<b]))
                            CLUST_rows) 2305"
proof -
  let ?cl = "clust_rows 28 (racc_of 4)"
  have p: "patches 2305 = Inr (28, rnaz_of 4, racc_of 4)" using patches_ok [of 4] by simp
  note f = racc_of_facts [of 4, simplified]
  have c: "distinct (concat ?cl)" "set (concat ?cl) = {0..<2305}" "length ?cl = 29"
    using clust_rows_concat [of "racc_of 4" 28] f by simp_all
  have l: "29 \<le> length ?cl" using c(3) by simp
  show "Curve_init 2305 = Inr (map (\<lambda>(a, b). concat (map (nth ?cl) [a..<b])) CLUST_rows)"
    by (simp add: Curve_init_def p Curve_collect [OF l])
  show "partition_of (map (\<lambda>(a, b). concat (map (nth ?cl) [a..<b])) CLUST_rows) 2305"
    using c by (intro partition_of_concat) (simp_all only: Curve_concat [OF l] take_all order_refl)
qed

lemma racc_of_0:
  assumes "1 \<le> MF"
  shows "racc_of MF ! 0 = 30 * MF"
proof -
  have "arange 0 (7 * MF) = 0 # arange 1 (7 * MF)"
    unfolding arange_def using assms upto_rec1 [of 0 "7 * MF - 1"] by simp
  then have "rnaz_of MF = (MF * 30) # map (\<lambda>r. MF * tnaz ! nat (r div MF)) (arange 1 (7 * MF))"
    by (simp add: rnaz_of_def tnaz_def)
  then show ?thesis by (simp add: racc_of_def)
qed

lemma rows_lower:
  assumes "sorted racc" "r_row + 1 = int (length racc)"
    and "x \<in> set (concat (map (\<lambda>i. arange (racc ! nat (i - 1)) (racc ! nat i)) (arange 1 (r_row + 1))))"
  shows "racc ! 0 \<le> x"
proof -
  from assms(3) obtain i where i: "1 \<le> i" "i < r_row + 1" "racc ! nat (i - 1) \<le> x"
    by (auto simp: set_arange)
  have "racc ! 0 \<le> racc ! nat (i - 1)"
    using i(1,2) assms(2) by (intro sorted_nth_mono [OF assms(1)]) auto
  with i(3) show ?thesis by simp
qed

lemma Curve_init_3601:
  "Curve_init 3601 = Inr (map (\<lambda>(a, b). concat (map (nth (clust_rows 35 (racc_of 5))) [a..<b]))
                            CLUST_rows)"
  "0 \<notin> set (concat (map (\<lambda>(a, b). concat (map (nth (clust_rows 35 (racc_of 5))) [a..<b]))
                            CLUST_rows))"
proof -
  let ?cl = "clust_rows 35 (racc_of 5)"
  let ?M = "map (\<lambda>i. arange (racc_of 5 ! nat (i - 1)) (racc_of 5 ! nat i)) (arange 1 (35 + 1))"
  have p: "patches 3601 = Inr (35, rnaz_of 5, racc_of 5)" using patches_ok [of 5] by simp
  note f = racc_of_facts [of 5, simplified]
  have len: "length ?cl = 36"
    using clust_rows_concat(3) [of "racc_of 5" 35] f by simp
  have l: "29 \<le> length ?cl" using len by simp
  show "Curve_init 3601 = Inr (map (\<lambda>(a, b). concat (map (nth ?cl) [a..<b])) CLUST_rows)"
    by (simp add: Curve_init_def p Curve_collect [OF l])
  have cl: "?cl = rev (arange 0 (racc_of 5 ! 0) # ?M)" by (simp add: clust_rows_def)
  have lM: "length (arange 0 (racc_of 5 ! 0) # ?M) = 36" using len unfolding cl by simp
  have "take 29 ?cl = rev (drop 7 (arange 0 (racc_of 5 ! 0) # ?M))"
    unfolding cl take_rev lM by simp
  also have "\<dots> = rev (drop 6 ?M)" by simp
  finally have "set (concat (take 29 ?cl)) \<subseteq> set (concat ?M)"
    using set_drop_subset [of 6 ?M] by auto
  moreover have "racc_of 5 ! 0 \<le> x" if "x \<in> set (concat ?M)" for x
    using rows_lower [of "racc_of 5" 35 x] f that by simp
  ultimately have "\<forall>x \<in> set (concat (take 29 ?cl)). 150 \<le> x"
    using racc_of_0 [of 5] by fastforce
  then have "0 \<notin> set (concat (take 29 ?cl))" by fastforce
  then show "0 \<notin> set (concat (map (\<lambda>(a, b). concat (map (nth ?cl) [a..<b])) CLUST_rows))"
    unfolding Curve_concat [OF l] .
qed

section \<open>The caches of the Reinhart and full-resolution classes\<close>

lemma Rot_cache: "reach Rot_clusters self \<Longrightarrow> cache_ok Rot_init self"
proof (induction rule: reach.induct)
  case reach_new
  show ?case by (rule cache_ok_new)
next
  case (reach_call self numCoeff)
  show ?case
    unfolding Rot_clusters_def cache_ok_fresh [OF reach_call.IH] snd_conv
    by (rule cache_ok_step [OF reach_call.IH])
qed

lemma Rot_fresh:
  assumes "reach Rot_clusters self"
  shows "fst (Rot_clusters self n) = Rot_init n"
  unfolding Rot_clusters_def cache_ok_fresh [OF Rot_cache [OF assms]] by simp

lemma Prof_cache: "reach Prof_clusters self \<Longrightarrow> cache_ok Prof_init self"
proof (induction rule: reach.induct)
  case reach_new
  show ?case by (rule cache_ok_new)
next
  case (reach_call self numCoeff)
  show ?case
    unfolding Prof_clusters_def cache_ok_fresh [OF reach_call.IH] snd_conv
    by (rule cache_ok_step [OF reach_call.IH])
qed

lemma Prof_fresh:
  assumes "reach Prof_clusters self"
  shows "fst (Prof_clusters self n) = Prof_init n"
  unfolding Prof_clusters_def cache_ok_fresh [OF Prof_cache [OF assms]] by simp

lemma FullRes_cache: "reach FullRes_clusters self \<Longrightarrow> cache_ok FullRes_init self"
proof (induction rule: reach.induct)
  case reach_new
  show ?case by (rule cache_ok_new)
next
  case (reach_call self numCoeff)
  show ?case
    unfolding FullRes_clusters_def cache_ok_fresh [OF reach_call.IH] snd_conv
    by (rule cache_ok_step [OF reach_call.IH])
qed

lemma FullRes_fresh:
  assumes "reach FullRes_clusters self"
  shows "fst (FullRes_clusters self n) = FullRes_init n"
  unfolding FullRes_clusters_def cache_ok_fresh [OF FullRes_cache [OF assms]] by simp

text \<open>\<open>ReinhartCurveSymmetry.clusters\<close> never sets \<open>_numCoeff\<close>, so every call
  recomputes the clusters.\<close>

lemma Curve_numCoeff: "reach Curve_clusters self \<Longrightarrow> s_numCoeff self = None"
proof (induction rule: reach.induct)
  case reach_new
  show ?case by (simp add: new_symm_def)
next
  case (reach_call self numCoeff)
  then show ?case
    by (simp add: Curve_clusters_def stale_def split: sum.splits)
qed

lemma Curve_fresh:
  assumes "reach Curve_clusters self"
  shows "fst (Curve_clusters self n) = Curve_init n"
  using Curve_numCoeff [OF assms]
  by (simp add: Curve_clusters_def stale_def split: sum.splits)

section \<open>Profile-angle clusters\<close>

lemma set_merge: "set (merge xs ys) = set xs \<union> set ys"
  by (induction xs ys rule: merge.induct) auto

lemma length_merge: "length (merge xs ys) = length xs + length ys"
  by (induction xs ys rule: merge.induct) auto

text \<open>The thirteen clusters, merged, are the bins \<open>0, ..., 2304\<close> in order.\<close>

lemma Prof_merged:
  "merge (merge (merge (merge Prof_CLUST1 Prof_CLUST2) (merge Prof_CLUST3 Prof_CLUST4))
                (merge (merge Prof_CLUST5 Prof_CLUST6) (merge Prof_CLUST7 Prof_CLUST8)))
         (merge (merge (merge Prof_CLUST9 Prof_CLUST10) (merge Prof_CLUST11 Prof_CLUST12))
                Prof_CLUST13)
   = arange 0 2305"
  by code_simp

lemma Prof_partition:
  "partition_of [Prof_CLUST1, Prof_CLUST2, Prof_CLUST3, Prof_CLUST4, Prof_CLUST5, Prof_CLUST6,
          Prof_CLUST7, Prof_CLUST8, Prof_CLUST9, Prof_CLUST10, Prof_CLUST11, Prof_CLUST12,
          Prof_CLUST13] 2305"
proof (rule partition_of_concat)
  let ?t = "[Prof_CLUST1, Prof_CLUST2, Prof_CLUST3, Prof_CLUST4, Prof_CLUST5, Prof_CLUST6,
          Prof_CLUST7, Prof_CLUST8, Prof_CLUST9, Prof_CLUST10, Prof_CLUST11, Prof_CLUST12,
          Prof_CLUST13]"
  let ?m = "merge (merge (merge (merge Prof_CLUST1 Prof_CLUST2) (merge Prof_CLUST3 Prof_CLUST4))
                (merge (merge Prof_CLUST5 Prof_CLUST6) (merge Prof_CLUST7 Prof_CLUST8)))
         (merge (merge (merge Prof_CLUST9 Prof_CLUST10) (merge Prof_CLUST11 Prof_CLUST12))
                Prof_CLUST13)"
  have "set (concat ?t) = set ?m" by (simp add: set_merge Un_ac)
  then show s: "set (concat ?t) = {0..<2305}" by (simp only: Prof_merged set_arange)
  have "length (concat ?t) = length ?m" by (simp add: length_merge)
  then have l: "length (concat ?t) = nat (2305 - 0)" by (simp only: Prof_merged length_arange)
  have c: "card {0..<2305::int} = nat (2305 - 0)" by simp
  have "card (set (concat ?t)) = length (concat ?t)" unfolding s l c ..
  then show "distinct (concat ?t)" by (rule card_distinct)
qed

section \<open>The inverse pixel mapping never fails on a valid index\<close>

lemma pyint_bounds: "\<bar>x\<bar> \<le> real_of_int n \<Longrightarrow> - n \<le> pyint x \<and> pyint x \<le> n"
  unfolding pyint_def by (auto simp: le_floor_iff ceiling_le_iff floor_le_iff le_ceiling_iff)

lemma segArea_in:
  assumes "1 \<le> r" "- r \<le> v" "v \<le> r"
  shows "segArea v r = Inr (0.5 * (real_of_int r)\<^sup>2 *
           (2 * arccos (real_of_int v / real_of_int r)
            - sin (2 * arccos (real_of_int v / real_of_int r))))"
proof -
  have "\<bar>real_of_int v\<bar> \<le> real_of_int r" using assms by linarith
  then have "\<bar>real_of_int v / real_of_int r\<bar> \<le> 1" using assms(1) by (simp add: field_simps)
  then have "alpha v r = Inr (2 * arccos (real_of_int v / real_of_int r))"
    using assms(1,3) by (simp add: alpha_def)
  then show ?thesis unfolding segArea_def by (simp only: sum.case)
qed

lemma segArea_out: "r < v \<Longrightarrow> segArea v r = Inr 0"
  by (simp add: segArea_def alpha_def)

lemma segArea_ok:
  assumes "1 \<le> r" "- r \<le> v"
  shows "\<exists>a. segArea v r = Inr a"
proof (cases "v \<le> r")
  case True
  then show ?thesis using segArea_in [OF assms True] by blast
next
  case False
  then show ?thesis using segArea_out [of r v] by auto
qed

lemma chordLen_ok:
  assumes "1 \<le> r" "- r \<le> v"
  shows "\<exists>c. chordLen v r = Inr c"
proof (cases "v \<le> r")
  case True
  have "\<bar>v\<bar> \<le> \<bar>r\<bar>" using assms True by linarith
  then have "v\<^sup>2 \<le> r\<^sup>2" by (rule abs_le_square_iff [THEN iffD1])
  then show ?thesis using True by (simp add: chordLen_def)
next
  case False
  then show ?thesis by (simp add: chordLen_def)
qed

lemma segArea_top: "1 \<le> r \<Longrightarrow> segArea r r = Inr 0"
  by (simp add: segArea_def alpha_def)

lemma chordLen_top: "chordLen r r = Inr 0"
  by (simp add: chordLen_def)

lemma pyint_half_neg: "pyint (- (1 / 2)) = 0" "pyint (1 / 2) = 0"
  by (simp_all add: pyint_def ceiling_eq_iff)

lemma newton_iter_error: "newton_iter func fprime n p0 = Inl e \<Longrightarrow> e = RuntimeError"
  by (induction n arbitrary: p0) (auto simp: Let_def split: if_splits)

lemma newton_error: "newton func x0 fprime = Inl e \<Longrightarrow> e = RuntimeError"
  unfolding newton_def by (rule newton_iter_error)

text \<open>For an index in range \<open>idx2Pix\<close> raises exactly when the solver does, and returns
  a pixel otherwise.\<close>

lemma idx2Pix_raises:
  assumes "1 \<le> radius" "0 \<le> idx" "real_of_int idx \<le> pi * (real_of_int radius)\<^sup>2"
    and "newton (newton_f (idx - 1) radius) pi newton_df = Inl e"
  shows "idx2Pix idx radius = Inl RuntimeError"
proof -
  have "\<not> (idx < 0 \<or> pi * (real_of_int radius)\<^sup>2 < real_of_int idx)" "radius \<noteq> 0"
    using assms(1-3) by auto
  moreover have "e = RuntimeError" using assms(4) by (rule newton_error)
  ultimately show ?thesis using assms(4) by (simp add: idx2Pix_def)
qed

lemma idx2Pix_returns:
  assumes "1 \<le> radius" "0 \<le> idx" "real_of_int idx \<le> pi * (real_of_int radius)\<^sup>2"
    and "newton (newton_f (idx - 1) radius) pi newton_df = Inr alphaOpt"
  shows "\<exists>p. idx2Pix idx radius = Inr (Some p)"
proof -
  define v where "v = pyint (real_of_int radius * cos (alphaOpt / 2)) + (if alphaOpt < pi then 1 else 0)"
  have "\<bar>real_of_int radius * cos (alphaOpt / 2)\<bar> \<le> real_of_int radius"
    using assms(1) by (simp add: abs_mult mult_left_le abs_cos_le_one)
  then have "- radius \<le> pyint (real_of_int radius * cos (alphaOpt / 2))"
    using pyint_bounds by blast
  then have v: "- radius \<le> v" by (simp add: v_def)
  obtain a where a: "segArea v radius = Inr a" using segArea_ok [OF assms(1) v] ..
  obtain c where c: "chordLen v radius = Inr c" using chordLen_ok [OF assms(1) v] ..
  have "\<not> (idx < 0 \<or> pi * (real_of_int radius)\<^sup>2 < real_of_int idx)" "radius \<noteq> 0"
    using assms(1-3) by auto
  then show ?thesis
    unfolding idx2Pix_def assms(4) sum.case Let_def v_def [symmetric]
    by (simp add: a c)
qed

lemma idx2Pix_cases:
  assumes "1 \<le> radius" "0 \<le> idx" "real_of_int idx \<le> pi * (real_of_int radius)\<^sup>2"
  shows "idx2Pix idx radius = Inl RuntimeError \<or> (\<exists>p. idx2Pix idx radius = Inr (Some p))"
proof (cases "newton (newton_f (idx - 1) radius) pi newton_df")
  case (Inl e)
  with assms have "idx2Pix idx radius = Inl RuntimeError" by (rule idx2Pix_raises)
  then show ?thesis ..
next
  case (Inr alphaOpt)
  with assms have "\<exists>p. idx2Pix idx radius = Inr (Some p)" by (rule idx2Pix_returns)
  then show ?thesis ..
qed

section \<open>What the solver can return to idx2Pix\<close>

lemma abs_sin_lt:
  assumes "0 < (d::real)"
  shows "\<bar>sin d\<bar> < d"
proof (cases "d \<le> 1")
  case False
  have "\<bar>sin d\<bar> \<le> 1" by (rule abs_sin_le_one)
  then show ?thesis using False by linarith
next
  case True
  have h: "0 < d / 2" "d / 2 < pi" "d / 2 \<le> pi" using assms True pi_ge_two by simp_all
  have s: "0 < sin (d / 2)" using h(1,2) by (rule sin_gt_zero)
  have s': "sin (d / 2) \<le> d / 2" using h(1) by (intro sin_x_le_x) simp
  have "cos (d / 2) < cos 0" using h(1,3) by (intro cos_monotone_0_pi) simp_all
  then have c: "cos (d / 2) < 1" by simp
  have c': "0 < cos (d / 2)" using h(1) True pi_ge_two by (intro cos_gt_zero_pi) simp_all
  have e: "sin d = 2 * sin (d / 2) * cos (d / 2)" using sin_double [of "d / 2"] by simp
  have "sin (d / 2) * cos (d / 2) < sin (d / 2) * 1" using s c by (intro mult_strict_left_mono)
  then have "sin d < d" using e s' by simp
  moreover have "0 < sin d" unfolding e using s c' by simp
  ultimately show ?thesis by simp
qed

lemma pi_gt_three: "3 < pi"
proof -
  have "\<bar>sin (pi / 6)\<bar> < pi / 6" by (intro abs_sin_lt) simp
  then show ?thesis by (simp add: sin_30)
qed

lemma sin_diff_lt:
  assumes "a < (b::real)"
  shows "sin b - sin a < b - a"
proof -
  have d: "0 < (b - a) / 2" using assms by simp
  have "sin b - sin a = 2 * (sin ((b - a) / 2) * cos ((b + a) / 2))"
    by (simp add: sin_diff_sin)
  also have "\<dots> \<le> 2 * \<bar>sin ((b - a) / 2) * cos ((b + a) / 2)\<bar>" by simp
  also have "\<bar>sin ((b - a) / 2) * cos ((b + a) / 2)\<bar> \<le> \<bar>sin ((b - a) / 2)\<bar> * 1"
    unfolding abs_mult by (intro mult_left_mono abs_cos_le_one) simp
  also have "\<bar>sin ((b - a) / 2)\<bar> * 1 < (b - a) / 2" using abs_sin_lt [OF d] by simp
  finally show ?thesis by simp
qed

lemma newton_f_strict:
  assumes "a < b"
  shows "newton_f idx radius b < newton_f idx radius a"
  using sin_diff_lt [OF assms] by (simp add: newton_f_def)

lemma one_minus_cos_le: "1 - cos x \<le> (x::real)\<^sup>2 / 2"
proof -
  have "\<bar>sin (x / 2)\<bar> \<le> \<bar>x / 2\<bar>" by (rule abs_sin_x_le_abs_x)
  then have "(sin (x / 2))\<^sup>2 \<le> (x / 2)\<^sup>2" by (simp only: abs_le_square_iff)
  moreover have "cos x = 1 - 2 * (sin (x / 2))\<^sup>2" using cos_double_sin [of "x / 2"] by simp
  ultimately show ?thesis by (simp add: power2_eq_square)
qed

lemma abs_sin_diff_le: "\<bar>sin a - sin b\<bar> \<le> \<bar>a - (b::real)\<bar>"
proof -
  have "\<bar>sin a - sin b\<bar> = 2 * (\<bar>sin ((a - b) / 2)\<bar> * \<bar>cos ((a + b) / 2)\<bar>)"
    by (simp add: sin_diff_sin abs_mult)
  also have "\<bar>sin ((a - b) / 2)\<bar> * \<bar>cos ((a + b) / 2)\<bar> \<le> \<bar>(a - b) / 2\<bar> * 1"
    by (intro mult_mono abs_sin_x_le_abs_x abs_cos_le_one) simp_all
  finally show ?thesis by simp
qed

lemma newton_f_lipschitz:
  "\<bar>newton_f idx radius a - newton_f idx radius b\<bar> \<le> 2 * \<bar>a - b\<bar>"
proof -
  have "\<bar>newton_f idx radius a - newton_f idx radius b\<bar> = \<bar>(sin a - sin b) - (a - b)\<bar>"
    by (simp add: newton_f_def)
  also have "\<dots> \<le> \<bar>sin a - sin b\<bar> + \<bar>a - b\<bar>" by (rule abs_triangle_ineq4)
  also have "\<dots> \<le> \<bar>a - b\<bar> + \<bar>a - b\<bar>" using abs_sin_diff_le [of a b] by simp
  finally show ?thesis by simp
qed

lemma abs_newton_df: "\<bar>newton_df a\<bar> \<le> 2"
  using cos_ge_minus_one [of a] cos_le_one [of a] unfolding newton_df_def by linarith

text \<open>A value the solver returns is a root of \<open>f\<close> up to four times the tolerance: the
  last step is at most \<open>tol\<close> long, the slope of \<open>f\<close> is at most 2, and so is \<open>|df|\<close>.\<close>

lemma newton_iter_residual:
  assumes "newton_iter (newton_f idx radius) newton_df n p0 = Inr p"
  shows "\<bar>newton_f idx radius p\<bar> \<le> 4 * newton_tol"
  using assms
proof (induction n arbitrary: p0)
  case 0
  then show ?case by simp
next
  case (Suc n)
  let ?f = "newton_f idx radius"
  define q where "q = p0 - ?f p0 / newton_df p0"
  have tol: "0 \<le> newton_tol" by (simp add: newton_tol_def)
  consider "?f p0 = 0" "p = p0"
    | "?f p0 \<noteq> 0" "newton_df p0 \<noteq> 0" "\<bar>q - p0\<bar> \<le> newton_tol" "p = q"
    | "newton_iter ?f newton_df n q = Inr p"
    using Suc.prems unfolding newton_iter.simps Let_def q_def [symmetric]
    by (cases "?f p0 = 0"; cases "newton_df p0 = 0"; cases "\<bar>q - p0\<bar> \<le> newton_tol") simp_all
  then show ?case
  proof cases
    case 1
    then show ?thesis using tol by simp
  next
    case 2
    have "(q - p0) * newton_df p0 = - ?f p0" using 2(2) by (simp add: q_def)
    then have "\<bar>(q - p0) * newton_df p0\<bar> = \<bar>?f p0\<bar>" by simp
    then have "\<bar>q - p0\<bar> * \<bar>newton_df p0\<bar> = \<bar>?f p0\<bar>" by (simp only: abs_mult)
    moreover have "\<bar>q - p0\<bar> * \<bar>newton_df p0\<bar> \<le> newton_tol * 2"
      using 2(3) abs_newton_df [of p0] by (intro mult_mono) simp_all
    ultimately have a: "\<bar>?f p0\<bar> \<le> 2 * newton_tol" by simp
    have l: "\<bar>?f q - ?f p0\<bar> \<le> 2 * \<bar>q - p0\<bar>" by (rule newton_f_lipschitz)
    have "2 * \<bar>q - p0\<bar> \<le> 2 * newton_tol" using 2(3) by simp
    with l have l': "\<bar>?f q - ?f p0\<bar> \<le> 2 * newton_tol" by (rule order_trans)
    have "\<bar>(?f q - ?f p0) + ?f p0\<bar> \<le> \<bar>?f q - ?f p0\<bar> + \<bar>?f p0\<bar>"
      by (rule abs_triangle_ineq)
    also have "\<dots> \<le> 2 * newton_tol + 2 * newton_tol" using l' a by (rule add_mono)
    finally have "\<bar>?f q\<bar> \<le> 4 * newton_tol" by simp
    then show ?thesis by (simp add: 2(4))
  next
    case 3
    then show ?thesis by (rule Suc.IH)
  qed
qed

text \<open>\<open>f\<close> is strictly decreasing, so the returned value lies between any two points
  where \<open>f\<close> is above and below that bound.\<close>

lemma newton_located:
  assumes "newton (newton_f idx radius) x0 newton_df = Inr p"
    and "4 * newton_tol < newton_f idx radius lo" "newton_f idx radius hi < - (4 * newton_tol)"
  shows "lo < p" "p < hi"
proof -
  have r: "\<bar>newton_f idx radius p\<bar> \<le> 4 * newton_tol"
    using assms(1) unfolding newton_def by (rule newton_iter_residual)
  show "lo < p"
  proof (rule ccontr)
    assume "\<not> lo < p"
    then consider "p = lo" | "p < lo" by linarith
    then show False
      using newton_f_strict [of p lo idx radius] r assms(2) by cases auto
  qed
  show "p < hi"
  proof (rule ccontr)
    assume "\<not> p < hi"
    then consider "p = hi" | "hi < p" by linarith
    then show False
      using newton_f_strict [of hi p idx radius] r assms(3) by cases auto
  qed
qed

section \<open>Full-resolution clusters\<close>

lemma length_CLUSTTHETAS: "length CLUSTTHETAS = 80"
  by (simp add: CLUSTTHETAS_def length_arange)

lemma FullRes_rad:
  assumes "0 \<le> numCoeff"
  shows "1 \<le> pyint (sqrt (real_of_int numCoeff / pi) + 1)"
    and "real_of_int numCoeff \<le> pi * (real_of_int (pyint (sqrt (real_of_int numCoeff / pi) + 1)))\<^sup>2"
proof -
  let ?q = "sqrt (real_of_int numCoeff / pi)"
  let ?rad = "pyint (?q + 1)"
  have q0: "0 \<le> ?q" using assms by simp
  then have rad: "?rad = \<lfloor>?q + 1\<rfloor>" by (simp add: pyint_def)
  show "1 \<le> ?rad" using q0 unfolding rad by (simp add: le_floor_iff)
  have "?q \<le> real_of_int ?rad" unfolding rad by (simp add: le_floor_iff)
  then have "?q\<^sup>2 \<le> (real_of_int ?rad)\<^sup>2" using q0 by (rule power_mono)
  moreover have "?q\<^sup>2 = real_of_int numCoeff / pi" using assms by simp
  ultimately have "real_of_int numCoeff / pi \<le> (real_of_int ?rad)\<^sup>2" by simp
  then show "real_of_int numCoeff \<le> pi * (real_of_int ?rad)\<^sup>2"
    by (simp add: field_simps)
qed

text \<open>For a bin in range the pass of the loop raises exactly when the solver does;
  otherwise it yields a polar angle, which is not negative.\<close>

lemma coeffTheta_pixel:
  assumes "idx2Pix idx rad = Inr (Some p)"
  shows "coeffTheta rad idx = Inr (theta_of rad idx)" and "0 \<le> theta_of rad idx"
proof -
  obtain x y where p: "idx2Pix idx rad = Inr (Some (x, y))"
    using assms by (cases p) simp
  obtain Dx Dy Dz where w: "vwRay (0.5 * real_of_int x / real_of_int rad,
                                   0.5 * real_of_int y / real_of_int rad) = (Dx, Dy, Dz)"
    by (metis surj_pair)
  have c: "coeffTheta rad idx = Inr (arccos Dz)"
    unfolding coeffTheta_def p by (simp only: sum.case option.case prod.case w Let_def)
  then show "coeffTheta rad idx = Inr (theta_of rad idx)" by (simp add: theta_of_def)
  have "\<exists>t. Dz = cos t" using w by (auto simp: vwRay_def Let_def)
  then have "- 1 \<le> Dz" "Dz \<le> 1" by auto
  then have "0 \<le> arccos Dz" by (rule arccos_lbound)
  then show "0 \<le> theta_of rad idx" by (simp add: theta_of_def c)
qed

lemma coeffTheta_cases:
  assumes "1 \<le> rad" "0 \<le> idx" "real_of_int idx \<le> pi * (real_of_int rad)\<^sup>2"
  shows "(coeffTheta rad idx = Inl RuntimeError \<and> idx2Pix idx rad = Inl RuntimeError)
         \<or> (coeffTheta rad idx = Inr (theta_of rad idx) \<and> 0 \<le> theta_of rad idx)"
  using idx2Pix_cases [OF assms]
proof
  assume "idx2Pix idx rad = Inl RuntimeError"
  then show ?thesis by (simp add: coeffTheta_def)
next
  assume "\<exists>p. idx2Pix idx rad = Inr (Some p)"
  then obtain p where "idx2Pix idx rad = Inr (Some p)" ..
  then show ?thesis using coeffTheta_pixel by blast
qed

lemma collect_cases:
  assumes "\<And>x. x \<in> set xs \<Longrightarrow> f x = Inl e \<or> f x = Inr (g x)"
  shows "(collect f xs = Inl e \<and> (\<exists>x \<in> set xs. f x = Inl e))
         \<or> (collect f xs = Inr (map g xs) \<and> (\<forall>x \<in> set xs. f x = Inr (g x)))"
  using assms
proof (induction xs)
  case Nil
  then show ?case by simp
next
  case (Cons x xs)
  have "f x = Inl e \<or> f x = Inr (g x)" using Cons.prems by simp
  moreover have "(collect f xs = Inl e \<and> (\<exists>x \<in> set xs. f x = Inl e))
         \<or> (collect f xs = Inr (map g xs) \<and> (\<forall>x \<in> set xs. f x = Inr (g x)))"
    using Cons.prems by (intro Cons.IH) simp
  ultimately show ?case by auto
qed

lemma zip_map_filter:
  "[idx. (idx, b) \<leftarrow> zip xs (map f xs), b = i] = filter (\<lambda>x. f x = i) xs"
  by (induction xs) auto

text \<open>\<open>FullResSymmetry.clusters\<close> on a stale cache: a \<open>RuntimeError\<close> of the solver for
  some bin, or the eighty lists of the bins by \<open>thetaBin\<close>.\<close>

lemma FullRes_init_cases:
  assumes "0 \<le> numCoeff"
  shows "(FullRes_init numCoeff = Inl RuntimeError
            \<and> (\<exists>idx. 0 \<le> idx \<and> idx < numCoeff
                  \<and> idx2Pix idx (pyint (sqrt (real_of_int numCoeff / pi) + 1)) = Inl RuntimeError))
         \<or> (FullRes_init numCoeff =
               Inr (map (\<lambda>i. filter (\<lambda>idx. thetaBin (theta_of (pyint (sqrt (real_of_int numCoeff / pi) + 1)) idx) = i)
                            (arange 0 numCoeff))
                      (arange 0 80))
            \<and> (\<forall>idx. 0 \<le> idx \<and> idx < numCoeff \<longrightarrow>
                  coeffTheta (pyint (sqrt (real_of_int numCoeff / pi) + 1)) idx
                    = Inr (theta_of (pyint (sqrt (real_of_int numCoeff / pi) + 1)) idx)
                  \<and> 0 \<le> theta_of (pyint (sqrt (real_of_int numCoeff / pi) + 1)) idx))"
proof -
  let ?rad = "pyint (sqrt (real_of_int numCoeff / pi) + 1)"
  note r = FullRes_rad [OF assms]
  have bin: "(coeffTheta ?rad idx = Inl RuntimeError \<and> idx2Pix idx ?rad = Inl RuntimeError)
         \<or> (coeffTheta ?rad idx = Inr (theta_of ?rad idx) \<and> 0 \<le> theta_of ?rad idx)"
    if "0 \<le> idx" "idx < numCoeff" for idx
  proof -
    have "real_of_int idx \<le> pi * (real_of_int ?rad)\<^sup>2" using r(2) that by linarith
    with r(1) that(1) show ?thesis by (rule coeffTheta_cases)
  qed
  have "(collect (coeffTheta ?rad) (arange 0 numCoeff) = Inl RuntimeError
           \<and> (\<exists>x \<in> set (arange 0 numCoeff). coeffTheta ?rad x = Inl RuntimeError))
        \<or> (collect (coeffTheta ?rad) (arange 0 numCoeff) = Inr (map (theta_of ?rad) (arange 0 numCoeff))
           \<and> (\<forall>x \<in> set (arange 0 numCoeff). coeffTheta ?rad x = Inr (theta_of ?rad x)))"
    using bin by (intro collect_cases) (auto simp: set_arange)
  then show ?thesis
  proof
    assume c: "collect (coeffTheta ?rad) (arange 0 numCoeff) = Inl RuntimeError
           \<and> (\<exists>x \<in> set (arange 0 numCoeff). coeffTheta ?rad x = Inl RuntimeError)"
    then obtain idx where i: "0 \<le> idx" "idx < numCoeff" "coeffTheta ?rad idx = Inl RuntimeError"
      by (auto simp: set_arange)
    have "idx2Pix idx ?rad = Inl RuntimeError" using bin [OF i(1,2)] i(3) by auto
    moreover have "FullRes_init numCoeff = Inl RuntimeError"
      using assms c by (simp add: FullRes_init_def Let_def)
    ultimately show ?thesis using i(1,2) by blast
  next
    assume c: "collect (coeffTheta ?rad) (arange 0 numCoeff) = Inr (map (theta_of ?rad) (arange 0 numCoeff))
           \<and> (\<forall>x \<in> set (arange 0 numCoeff). coeffTheta ?rad x = Inr (theta_of ?rad x))"
    have th: "(\<lambda>t. digitize t CLUSTTHETAS - 1) = thetaBin" by (simp add: thetaBin_def fun_eq_iff)
    have col: "collect (coeffTheta ?rad) (arange 0 numCoeff) = Inr (map (theta_of ?rad) (arange 0 numCoeff))"
      using c ..
    have "FullRes_init numCoeff =
               Inr (map (\<lambda>i. filter (\<lambda>idx. thetaBin (theta_of ?rad idx) = i) (arange 0 numCoeff))
                      (arange 0 80))"
      using assms unfolding FullRes_init_def Let_def col sum.case th
      by (simp add: zip_map_filter length_CLUSTTHETAS comp_def)
    moreover have "coeffTheta ?rad idx = Inr (theta_of ?rad idx) \<and> 0 \<le> theta_of ?rad idx"
      if "0 \<le> idx \<and> idx < numCoeff" for idx
    proof -
      have "coeffTheta ?rad idx = Inr (theta_of ?rad idx)" using c that by (simp add: set_arange)
      then show ?thesis using bin [of idx] that by auto
    qed
    ultimately show ?thesis by blast
  qed
qed

lemma digitize_floor:
  assumes "0 \<le> t"
  shows "thetaBin t = min 79 \<lfloor>t * 180 / pi\<rfloor>"
proof -
  let ?m = "\<lfloor>t * 180 / pi\<rfloor>"
  have m0: "0 \<le> ?m" using assms by simp
  have "filter (\<lambda>b. b \<le> t) CLUSTTHETAS
        = map (\<lambda>k. radians (real_of_int k)) (filter (\<lambda>k. radians (real_of_int k) \<le> t) (arange 0 80))"
    by (simp add: CLUSTTHETAS_def filter_map comp_def)
  moreover have "radians (real_of_int k) \<le> t \<longleftrightarrow> k \<le> ?m" for k
    by (simp add: radians_def le_floor_iff field_simps)
  ultimately have "digitize t CLUSTTHETAS = int (length (filter (\<lambda>k. k \<le> ?m) (arange 0 80)))"
    by (simp add: digitize_def)
  also have "length (filter (\<lambda>k. k \<le> ?m) (arange 0 80)) = card ({k. k \<le> ?m} \<inter> set (arange 0 80))"
    by (rule distinct_length_filter) (rule distinct_arange)
  also have "{k. k \<le> ?m} \<inter> set (arange 0 80) = {0..min 79 ?m}"
    by (auto simp: set_arange)
  also have "int (card {0..min 79 ?m}) = min 79 ?m + 1" using m0 by simp
  finally show ?thesis by (simp add: thetaBin_def)
qed

lemma thetaBin_range: "0 \<le> t \<Longrightarrow> 0 \<le> thetaBin t \<and> thetaBin t < 80"
  by (simp add: digitize_floor)

lemma FullRes_nth:
  assumes "j < 80"
  shows "map (\<lambda>i. filter (\<lambda>idx. f idx = i) (arange 0 n)) (arange 0 80) ! j
         = filter (\<lambda>idx. f idx = int j) (arange 0 n)"
  using assms by (simp add: arange_def length_arange)

lemma FullRes_partition:
  assumes "\<And>idx. 0 \<le> idx \<Longrightarrow> idx < n \<Longrightarrow> 0 \<le> f idx \<and> f idx < 80"
  shows "partition_of (map (\<lambda>i. filter (\<lambda>idx. f idx = i) (arange 0 n)) (arange 0 80)) n"
proof -
  let ?cl = "map (\<lambda>i. filter (\<lambda>idx. f idx = i) (arange 0 n)) (arange 0 80)"
  have nth: "?cl ! i = filter (\<lambda>idx. f idx = int i) (arange 0 n)" if "i < 80" for i
    using that by (simp add: arange_def length_arange)
  have len: "length ?cl = 80" by (simp add: length_arange)
  have u: "(\<Union>c \<in> set ?cl. set c) = {0..<n}"
  proof (rule set_eqI)
    fix k
    show "k \<in> (\<Union>c \<in> set ?cl. set c) \<longleftrightarrow> k \<in> {0..<n}"
      using assms [of k] by (auto simp: set_arange)
  qed
  have d: "set (?cl ! i) \<inter> set (?cl ! j) = {}" if "i < 80" "j < 80" "i \<noteq> j" for i j
    using that by (auto simp: nth)
  show ?thesis
    unfolding partition_of_def len using u d by blast
qed

section \<open>The top row of a circle of radius 5\<close>

text \<open>When the value \<open>p\<close> that the solver returns is not 0 and \<open>|p| < 6/5\<close>, then
  \<open>5 * cos(p / 2)\<close> lies in \<open>[4, 5)\<close>, the row is \<open>v = 5\<close>, where segment and chord are 0,
  and \<open>idx2Pix\<close> returns the pixel \<open>(idx + 4, 9)\<close>.\<close>

lemma idx2Pix_5_top:
  assumes "newton (newton_f (idx - 1) 5) pi newton_df = Inr p"
    and "p \<noteq> 0" "\<bar>p\<bar> < 6 / 5" "0 \<le> idx" "idx \<le> 75"
  shows "idx2Pix idx 5 = Inr (Some (idx + 4, 9))"
proof -
  define x where "x = \<bar>p\<bar> / 2"
  have x: "0 < x" "x < 3 / 5" using assms(2,3) by (simp_all add: x_def)
  have cx: "cos (p / 2) = cos x" by (simp add: x_def abs_if)
  have "cos x < cos 0" using x pi_gt_three by (intro cos_monotone_0_pi) simp_all
  then have c1: "cos x < 1" by simp
  have "x\<^sup>2 \<le> (3 / 5)\<^sup>2" using x by (intro power_mono) simp_all
  then have "x\<^sup>2 / 2 \<le> 18 / 100" by (simp add: power2_eq_square)
  then have c0: "82 / 100 \<le> cos x" using one_minus_cos_le [of x] by linarith
  have "\<lfloor>5 * cos x\<rfloor> = 4" using c0 c1 by (intro floor_unique) simp_all
  then have v: "pyint (real_of_int 5 * cos (p / 2)) = 4"
    using c0 by (simp add: pyint_def cx)
  have "\<bar>p\<bar> < pi" using assms(3) pi_gt_three by linarith
  then have lt: "p < pi" by simp
  have g: "\<not> (idx < 0 \<or> pi * (real_of_int 5)\<^sup>2 < real_of_int idx)" "(5::int) \<noteq> 0"
  proof -
    have "real_of_int idx \<le> 75" using assms(5) by simp
    then show "\<not> (idx < 0 \<or> pi * (real_of_int 5)\<^sup>2 < real_of_int idx)"
      using assms(4) pi_gt_three by simp
  qed simp
  show ?thesis
    unfolding idx2Pix_def assms(1) sum.case Let_def v
    using g lt by (simp add: segArea_top chordLen_top pyint_half_neg)
qed

lemma idx2Pix_3_5: "idx2Pix 3 5 = Inl RuntimeError \<or> idx2Pix 3 5 = Inr (Some (7, 9))"
proof (cases "newton (newton_f (3 - 1) 5) pi newton_df")
  case (Inl e)
  have "idx2Pix 3 5 = Inl RuntimeError"
    using pi_gt_three by (intro idx2Pix_raises [OF _ _ _ Inl]) simp_all
  then show ?thesis ..
next
  case (Inr p)
  have lo: "4 * newton_tol < newton_f (3 - 1) 5 0"
    by (simp add: newton_f_def newton_tol_def)
  have "newton_f (3 - 1) 5 (6 / 5) = 4 / 25 + sin (6 / 5) - 6 / 5" by (simp add: newton_f_def)
  moreover have "4 * newton_tol \<le> 1 / 100" by (simp add: newton_tol_def)
  ultimately have hi: "newton_f (3 - 1) 5 (6 / 5) < - (4 * newton_tol)"
    using sin_le_one [of "6 / 5 :: real"] by linarith
  note b = newton_located [OF Inr lo hi]
  have "idx2Pix 3 5 = Inr (Some (3 + 4, 9))"
    using b by (intro idx2Pix_5_top [OF Inr]) simp_all
  then show ?thesis by simp
qed

text \<open>The pixel \<open>(7, 9)\<close> is inside the circle of radius 5, at the distance
  \<open>sqrt(20) / 5\<close> of the centre in units of the radius; its polar angle is
  \<open>90 * sqrt(4/5) = 80.498...\<close> degrees.\<close>

lemma coeffTheta_7_9:
  assumes "idx2Pix 3 5 = Inr (Some (7, 9))"
  shows "coeffTheta 5 3 = Inr (pi / 2 * sqrt (4 / 5))"
proof -
  have s: "0 \<le> sqrt (4 / 5)" "sqrt (4 / 5) \<le> 1"
    by (simp_all add: real_le_lsqrt)
  have e: "EPSILON < sqrt (4 / 5)"
  proof -
    have "(1 / 2)\<^sup>2 \<le> (4 / 5 :: real)" by (simp add: power2_eq_square)
    then have "1 / 2 \<le> sqrt (4 / 5)" by (rule real_le_rsqrt)
    then show ?thesis by (simp add: EPSILON_def)
  qed
  have q: "(2 * (0.5 * real_of_int 7 / real_of_int 5) - 1)\<^sup>2
           + (2 * (0.5 * real_of_int 9 / real_of_int 5) - 1)\<^sup>2 = (4 / 5 :: real)"
    by (simp add: power2_eq_square)
  have "0 \<le> pi / 2 * sqrt (4 / 5)" using s(1) by simp
  moreover have "pi / 2 * sqrt (4 / 5) \<le> pi / 2 * 1" using s(2) by (intro mult_left_mono) simp_all
  ultimately have a: "arccos (cos (pi / 2 * sqrt (4 / 5))) = pi / 2 * sqrt (4 / 5)"
    by (intro arccos_cos) linarith+
  have "0.5 * pi * sqrt (4 / 5) = pi / 2 * sqrt (4 / 5)" by simp
  then show ?thesis
    unfolding coeffTheta_def assms sum.case option.case prod.case vwRay_def Let_def q
    using a by simp
qed

lemma floor_7_9: "\<lfloor>pi / 2 * sqrt (4 / 5) * 180 / pi\<rfloor> = 80"
proof -
  have "(8 / 9)\<^sup>2 \<le> (4 / 5 :: real)" by (simp add: power2_eq_square)
  then have lo: "8 / 9 \<le> sqrt (4 / 5)" by (rule real_le_rsqrt)
  have "(4 / 5 :: real) < (9 / 10)\<^sup>2" by (simp add: power2_eq_square)
  then have "sqrt (4 / 5) < sqrt ((9 / 10)\<^sup>2)" by (simp only: real_sqrt_less_iff)
  then have hi: "sqrt (4 / 5) < 9 / 10" by simp
  have "pi / 2 * sqrt (4 / 5) * 180 / pi = 90 * sqrt (4 / 5)" by simp
  then show ?thesis using lo hi by (simp add: floor_eq_iff)
qed

lemma FullRes_rad_64: "pyint (sqrt (64 / pi) + 1) = 5"
proof -
  have "4\<^sup>2 \<le> 64 / pi" using pi_less_4 by (simp add: field_simps)
  then have lo: "4 \<le> sqrt (64 / pi)" by (rule real_le_rsqrt)
  have "64 / pi < 5\<^sup>2" using pi_gt_three by (simp add: field_simps)
  then have "sqrt (64 / pi) < sqrt (5\<^sup>2)" by (simp only: real_sqrt_less_iff)
  then have hi: "sqrt (64 / pi) < 5" by simp
  show ?thesis using lo hi by (simp add: pyint_def floor_eq_iff)
qed

section \<open>The clusters of every policy as partitions\<close>

text \<open>
  \<open>3601 = 144 * 5^2 + 1\<close> is a Reinhart basis size that \<open>patches\<close> accepts, but the
  fifteen clusters that \<open>ReinhartCurveSymmetry.clusters(3601)\<close> returns are built from the
  rows 0 to 28 of 36 and leave out bin 0.
\<close>

theorem clusters_partition_counterexample:
  "(\<exists>res. patches 3601 = Inr res)
   \<and> (\<exists>cl. fst (Curve_clusters new_symm 3601) = Inr cl \<and> \<not> partition_of cl 3601)"
proof -
  have "patches 3601 = Inr (35, rnaz_of 5, racc_of 5)" using patches_ok [of 5] by simp
  moreover have "\<not> partition_of (map (\<lambda>(a, b). concat (map (nth (clust_rows 35 (racc_of 5))) [a..<b]))
                            CLUST_rows) 3601" (is "\<not> partition_of ?cl 3601")
  proof
    assume "partition_of ?cl 3601"
    then have "(\<Union>c \<in> set ?cl. set c) = {0..<3601}" by (simp add: partition_of_def)
    then have "set (concat ?cl) = {0..<3601}" by (simp only: set_concat)
    then have "0 \<in> set (concat ?cl)" by simp
    with Curve_init_3601(2) show False ..
  qed
  ultimately show ?thesis
    using Curve_init_3601(1) Curve_fresh [OF reach_new, of 3601] by auto
qed

text \<open>
  C2, as the code behaves. In every state of the instance the list that \<open>clusters\<close>
  returns is a partition of the bins \<open>0, ..., numCoeff - 1\<close> (pairwise disjoint clusters
  whose union is the set of all bins) for \<open>KlemsSymmetry\<close> at \<open>numCoeff = 145\<close>, for
  \<open>ReinhartRotSymmetry\<close> at every \<open>numCoeff = 144 * MF^2 + 1\<close> with \<open>MF \<ge> 1\<close>, for
  \<open>ReinhartCurveSymmetry\<close> and \<open>ReinhartProfSymmetry\<close> at \<open>numCoeff = 2305\<close> (\<open>MF = 4\<close>,
  the resolution their tables are written for), and for \<open>FullResSymmetry\<close> at every
  \<open>numCoeff \<ge> 0\<close> for which \<open>clusters\<close> returns. \<open>FullResSymmetry.clusters\<close> does not
  return, but lets a \<open>RuntimeError\<close> of the solver pass, exactly when the solver fails in
  \<open>idx2Pix\<close> for one of the bins.
\<close>

theorem clusters_partition:
  "(reach Klems_clusters k \<longrightarrow>
      (\<exists>cl. fst (Klems_clusters k 145) = Inr cl \<and> partition_of cl 145))
   \<and> (reach Rot_clusters r \<and> 1 \<le> MF \<longrightarrow>
      (\<exists>cl. fst (Rot_clusters r (144 * MF\<^sup>2 + 1)) = Inr cl \<and> partition_of cl (144 * MF\<^sup>2 + 1)))
   \<and> (reach Curve_clusters c \<longrightarrow>
      (\<exists>cl. fst (Curve_clusters c 2305) = Inr cl \<and> partition_of cl 2305))
   \<and> (reach Prof_clusters p \<longrightarrow>
      (\<exists>cl. fst (Prof_clusters p 2305) = Inr cl \<and> partition_of cl 2305))
   \<and> (reach FullRes_clusters f \<and> 0 \<le> n \<longrightarrow>
      (fst (FullRes_clusters f n) = Inl RuntimeError
         \<and> (\<exists>idx. 0 \<le> idx \<and> idx < n
               \<and> idx2Pix idx (pyint (sqrt (real_of_int n / pi) + 1)) = Inl RuntimeError))
      \<or> (\<exists>cl. fst (FullRes_clusters f n) = Inr cl \<and> partition_of cl n))"
proof (intro conjI impI)
  assume "reach Klems_clusters k"
  then show "\<exists>cl. fst (Klems_clusters k 145) = Inr cl \<and> partition_of cl 145"
    using Klems_partition by (simp add: Klems_fresh Klems_init_def)
next
  assume "reach Rot_clusters r \<and> 1 \<le> MF"
  then show "\<exists>cl. fst (Rot_clusters r (144 * MF\<^sup>2 + 1)) = Inr cl \<and> partition_of cl (144 * MF\<^sup>2 + 1)"
    using Rot_init_ok(1,2) [of MF] by (simp add: Rot_fresh)
next
  assume "reach Curve_clusters c"
  then show "\<exists>cl. fst (Curve_clusters c 2305) = Inr cl \<and> partition_of cl 2305"
    using Curve_init_2305 by (simp add: Curve_fresh)
next
  assume "reach Prof_clusters p"
  then show "\<exists>cl. fst (Prof_clusters p 2305) = Inr cl \<and> partition_of cl 2305"
    using Prof_partition by (simp add: Prof_fresh Prof_init_def)
next
  assume a: "reach FullRes_clusters f \<and> 0 \<le> n"
  let ?rad = "pyint (sqrt (real_of_int n / pi) + 1)"
  let ?cl = "map (\<lambda>i. filter (\<lambda>idx. thetaBin (theta_of ?rad idx) = i) (arange 0 n)) (arange 0 80)"
  have f: "fst (FullRes_clusters f n) = FullRes_init n" using a by (simp add: FullRes_fresh)
  from a have "0 \<le> n" ..
  then have "(FullRes_init n = Inl RuntimeError
            \<and> (\<exists>idx. 0 \<le> idx \<and> idx < n \<and> idx2Pix idx ?rad = Inl RuntimeError))
         \<or> (FullRes_init n = Inr ?cl
            \<and> (\<forall>idx. 0 \<le> idx \<and> idx < n \<longrightarrow>
                  coeffTheta ?rad idx = Inr (theta_of ?rad idx) \<and> 0 \<le> theta_of ?rad idx))"
    by (rule FullRes_init_cases)
  then show "(fst (FullRes_clusters f n) = Inl RuntimeError
         \<and> (\<exists>idx. 0 \<le> idx \<and> idx < n \<and> idx2Pix idx ?rad = Inl RuntimeError))
      \<or> (\<exists>cl. fst (FullRes_clusters f n) = Inr cl \<and> partition_of cl n)"
  proof
    assume "FullRes_init n = Inl RuntimeError
            \<and> (\<exists>idx. 0 \<le> idx \<and> idx < n \<and> idx2Pix idx ?rad = Inl RuntimeError)"
    then show ?thesis unfolding f ..
  next
    assume r: "FullRes_init n = Inr ?cl
            \<and> (\<forall>idx. 0 \<le> idx \<and> idx < n \<longrightarrow>
                  coeffTheta ?rad idx = Inr (theta_of ?rad idx) \<and> 0 \<le> theta_of ?rad idx)"
    have "0 \<le> thetaBin (theta_of ?rad idx) \<and> thetaBin (theta_of ?rad idx) < 80"
      if "0 \<le> idx" "idx < n" for idx
      using r that by (intro thetaBin_range) simp
    then have "partition_of ?cl n" by (rule FullRes_partition)
    with r have "\<exists>cl. fst (FullRes_clusters f n) = Inr cl \<and> partition_of cl n"
      unfolding f by blast
    then show ?thesis ..
  qed
qed

theorem clusters_partition_witness:
  "(\<exists>cl. fst (Klems_clusters new_symm 145) = Inr cl \<and> partition_of cl 145)
   \<and> (\<exists>cl. fst (Rot_clusters new_symm 145) = Inr cl \<and> partition_of cl 145)
   \<and> (\<exists>cl. fst (Curve_clusters new_symm 2305) = Inr cl \<and> partition_of cl 2305)
   \<and> (\<exists>cl. fst (Prof_clusters new_symm 2305) = Inr cl \<and> partition_of cl 2305)
   \<and> (\<exists>cl. fst (FullRes_clusters new_symm 0) = Inr cl \<and> partition_of cl 0)
   \<and> (fst (FullRes_clusters new_symm 64) = Inl RuntimeError
        \<or> (\<exists>cl. fst (FullRes_clusters new_symm 64) = Inr cl \<and> partition_of cl 64))"
proof -
  note t = clusters_partition [of new_symm new_symm 1 new_symm new_symm new_symm 0]
  note t' = clusters_partition [of new_symm new_symm 1 new_symm new_symm new_symm 64]
  have 1: "\<exists>cl. fst (Klems_clusters new_symm 145) = Inr cl \<and> partition_of cl 145"
    using t reach_new [of Klems_clusters] by blast
  have 2: "\<exists>cl. fst (Rot_clusters new_symm 145) = Inr cl \<and> partition_of cl 145"
    using t reach_new [of Rot_clusters] by simp
  have 3: "\<exists>cl. fst (Curve_clusters new_symm 2305) = Inr cl \<and> partition_of cl 2305"
    using t reach_new [of Curve_clusters] by blast
  have 4: "\<exists>cl. fst (Prof_clusters new_symm 2305) = Inr cl \<and> partition_of cl 2305"
    using t reach_new [of Prof_clusters] by blast
  have "(fst (FullRes_clusters new_symm 0) = Inl RuntimeError
         \<and> (\<exists>idx. 0 \<le> idx \<and> idx < 0
               \<and> idx2Pix idx (pyint (sqrt (real_of_int 0 / pi) + 1)) = Inl RuntimeError))
      \<or> (\<exists>cl. fst (FullRes_clusters new_symm 0) = Inr cl \<and> partition_of cl 0)"
    using t reach_new [of FullRes_clusters] by blast
  then have 5: "\<exists>cl. fst (FullRes_clusters new_symm 0) = Inr cl \<and> partition_of cl 0"
    by auto
  have n: "(0::int) \<le> 64" by simp
  have 6: "fst (FullRes_clusters new_symm 64) = Inl RuntimeError
        \<or> (\<exists>cl. fst (FullRes_clusters new_symm 64) = Inr cl \<and> partition_of cl 64)"
    using t' reach_new [of FullRes_clusters] n by blast
  from 1 2 3 4 5 6 show ?thesis by (intro conjI)
qed

section \<open>Full-resolution clusters by polar angle\<close>

text \<open>
  With 64 bins the radius is 5. When the solver returns for bin 3, \<open>idx2Pix\<close> gives the
  pixel \<open>(7, 9)\<close> of the top row of the circle, whose polar angle is
  \<open>90 * sqrt(4/5) = 80.498...\<close> degrees. There are only the clusters 0 to 79, and the bin
  is in the last one. So \<open>clusters(64)\<close> either raises the solver's \<open>RuntimeError\<close> or
  puts bin 3, at 80 degrees, into cluster 79.
\<close>

theorem FullRes_clusters_by_degree_counterexample:
  "fst (FullRes_clusters new_symm 64) = Inl RuntimeError
   \<or> (\<exists>cl theta. fst (FullRes_clusters new_symm 64) = Inr cl \<and> length cl = 80
         \<and> coeffTheta (pyint (sqrt (real_of_int 64 / pi) + 1)) 3 = Inr theta
         \<and> \<lfloor>theta * 180 / pi\<rfloor> = 80
         \<and> 3 \<in> set (cl ! 79))"
proof -
  let ?cl = "map (\<lambda>i. filter (\<lambda>idx. thetaBin (theta_of 5 idx) = i) (arange 0 64)) (arange 0 80)"
  have f: "fst (FullRes_clusters new_symm 64) = FullRes_init 64"
    by (rule FullRes_fresh [OF reach_new])
  have rad: "pyint (sqrt (real_of_int 64 / pi) + 1) = 5" using FullRes_rad_64 by simp
  have "(0::int) \<le> 64" by simp
  then have "(FullRes_init 64 = Inl RuntimeError
            \<and> (\<exists>idx. 0 \<le> idx \<and> idx < 64 \<and> idx2Pix idx 5 = Inl RuntimeError))
         \<or> (FullRes_init 64 = Inr ?cl
            \<and> (\<forall>idx. 0 \<le> idx \<and> idx < 64 \<longrightarrow>
                  coeffTheta 5 idx = Inr (theta_of 5 idx) \<and> 0 \<le> theta_of 5 idx))"
    unfolding rad [symmetric] by (rule FullRes_init_cases)
  then show ?thesis
  proof
    assume "FullRes_init 64 = Inl RuntimeError
            \<and> (\<exists>idx. 0 \<le> idx \<and> idx < 64 \<and> idx2Pix idx 5 = Inl RuntimeError)"
    then show ?thesis by (simp add: f)
  next
    assume r: "FullRes_init 64 = Inr ?cl
            \<and> (\<forall>idx. 0 \<le> idx \<and> idx < 64 \<longrightarrow>
                  coeffTheta 5 idx = Inr (theta_of 5 idx) \<and> 0 \<le> theta_of 5 idx)"
    then have c: "coeffTheta 5 3 = Inr (theta_of 5 3)" by simp
    have "idx2Pix 3 5 \<noteq> Inl RuntimeError" using c by (auto simp: coeffTheta_def)
    then have "idx2Pix 3 5 = Inr (Some (7, 9))" using idx2Pix_3_5 by simp
    then have "coeffTheta 5 3 = Inr (pi / 2 * sqrt (4 / 5))" by (rule coeffTheta_7_9)
    then have t: "theta_of 5 3 = pi / 2 * sqrt (4 / 5)" by (simp add: theta_of_def)
    have "thetaBin (pi / 2 * sqrt (4 / 5)) = min 79 \<lfloor>pi / 2 * sqrt (4 / 5) * 180 / pi\<rfloor>"
      by (intro digitize_floor) simp
    then have b: "thetaBin (theta_of 5 3) = 79" unfolding t floor_7_9 by simp
    have "?cl ! 79 = filter (\<lambda>idx. thetaBin (theta_of 5 idx) = int 79) (arange 0 64)"
      by (rule FullRes_nth) simp
    then have 3: "3 \<in> set (?cl ! 79)" using b by (simp add: set_arange)
    have 2: "length ?cl = 80" by (simp add: length_arange)
    have 4: "coeffTheta (pyint (sqrt (real_of_int 64 / pi) + 1)) 3 = Inr (pi / 2 * sqrt (4 / 5))"
      using c t unfolding rad by simp
    have 1: "fst (FullRes_clusters new_symm 64) = Inr ?cl" using r by (simp add: f)
    from 1 2 3 4 floor_7_9 show ?thesis by blast
  qed
qed

text \<open>
  C9, as the code behaves. In every state of a \<open>FullResSymmetry\<close> instance and for every
  \<open>numCoeff \<ge> 0\<close>, with the radius \<open>int(sqrt(numCoeff / pi) + 1)\<close>: when the solver fails in
  \<open>idx2Pix\<close> for one of the bins, \<open>clusters(numCoeff)\<close> raises its \<open>RuntimeError\<close>.
  Otherwise it returns exactly 80 clusters (empty ones included), and every bin \<open>idx\<close>,
  with \<open>theta\<close> the polar angle \<open>arccos(Dz)\<close> of the view ray obtained via \<open>idx2Pix\<close> and
  \<open>vwRay\<close>, is in the cluster numbered \<open>min(79, floor(theta in degrees))\<close> and in no
  other: the last cluster collects every bin from 79 degrees on.
\<close>

theorem FullRes_clusters_by_degree:
  assumes "reach FullRes_clusters self" "0 \<le> numCoeff"
  shows "(fst (FullRes_clusters self numCoeff) = Inl RuntimeError
            \<and> (\<exists>idx. 0 \<le> idx \<and> idx < numCoeff
                  \<and> idx2Pix idx (pyint (sqrt (real_of_int numCoeff / pi) + 1)) = Inl RuntimeError))
         \<or> (\<exists>cl. fst (FullRes_clusters self numCoeff) = Inr cl \<and> length cl = 80
              \<and> (\<forall>idx. 0 \<le> idx \<and> idx < numCoeff \<longrightarrow>
                    (\<exists>theta. coeffTheta (pyint (sqrt (real_of_int numCoeff / pi) + 1)) idx = Inr theta
                       \<and> idx \<in> set (cl ! nat (min 79 \<lfloor>theta * 180 / pi\<rfloor>))
                       \<and> (\<forall>j < 80. j \<noteq> nat (min 79 \<lfloor>theta * 180 / pi\<rfloor>) \<longrightarrow> idx \<notin> set (cl ! j)))))"
proof -
  let ?rad = "pyint (sqrt (real_of_int numCoeff / pi) + 1)"
  let ?cl = "map (\<lambda>i. filter (\<lambda>idx. thetaBin (theta_of ?rad idx) = i) (arange 0 numCoeff))
               (arange 0 80)"
  have f: "fst (FullRes_clusters self numCoeff) = FullRes_init numCoeff"
    using assms(1) by (rule FullRes_fresh)
  have nth: "?cl ! j = filter (\<lambda>idx. thetaBin (theta_of ?rad idx) = int j) (arange 0 numCoeff)"
    if "j < 80" for j
    using that by (simp add: arange_def length_arange)
  from FullRes_init_cases [OF assms(2)] show ?thesis
  proof
    assume "FullRes_init numCoeff = Inl RuntimeError
            \<and> (\<exists>idx. 0 \<le> idx \<and> idx < numCoeff \<and> idx2Pix idx ?rad = Inl RuntimeError)"
    then show ?thesis unfolding f ..
  next
    assume r: "FullRes_init numCoeff = Inr ?cl
            \<and> (\<forall>idx. 0 \<le> idx \<and> idx < numCoeff \<longrightarrow>
                  coeffTheta ?rad idx = Inr (theta_of ?rad idx) \<and> 0 \<le> theta_of ?rad idx)"
    have 1: "fst (FullRes_clusters self numCoeff) = Inr ?cl" using r by (simp add: f)
    have 2: "length ?cl = 80" by (simp add: length_arange)
    have 3: "\<exists>theta. coeffTheta ?rad idx = Inr theta
               \<and> idx \<in> set (?cl ! nat (min 79 \<lfloor>theta * 180 / pi\<rfloor>))
               \<and> (\<forall>j < 80. j \<noteq> nat (min 79 \<lfloor>theta * 180 / pi\<rfloor>) \<longrightarrow> idx \<notin> set (?cl ! j))"
      if i: "0 \<le> idx \<and> idx < numCoeff" for idx
    proof -
      let ?t = "theta_of ?rad idx"
      have c: "coeffTheta ?rad idx = Inr ?t" "0 \<le> ?t" using r i by simp_all
      have b: "thetaBin ?t = min 79 \<lfloor>?t * 180 / pi\<rfloor>" by (rule digitize_floor [OF c(2)])
      have m: "0 \<le> min 79 \<lfloor>?t * 180 / pi\<rfloor>" "nat (min 79 \<lfloor>?t * 180 / pi\<rfloor>) < 80"
        using c(2) by simp_all
      have "idx \<in> set (?cl ! nat (min 79 \<lfloor>?t * 180 / pi\<rfloor>))"
        unfolding nth [OF m(2)] using i m(1) b by (simp add: set_arange)
      moreover have "idx \<notin> set (?cl ! j)" if "j < 80" "j \<noteq> nat (min 79 \<lfloor>?t * 180 / pi\<rfloor>)" for j
        unfolding nth [OF that(1)] using that(2) m(1) b by auto
      ultimately show ?thesis using c(1) by blast
    qed
    from 1 2 3 have "\<exists>cl. fst (FullRes_clusters self numCoeff) = Inr cl \<and> length cl = 80
              \<and> (\<forall>idx. 0 \<le> idx \<and> idx < numCoeff \<longrightarrow>
                    (\<exists>theta. coeffTheta ?rad idx = Inr theta
                       \<and> idx \<in> set (cl ! nat (min 79 \<lfloor>theta * 180 / pi\<rfloor>))
                       \<and> (\<forall>j < 80. j \<noteq> nat (min 79 \<lfloor>theta * 180 / pi\<rfloor>) \<longrightarrow> idx \<notin> set (cl ! j))))"
      by blast
    then show ?thesis ..
  qed
qed

theorem FullRes_clusters_by_degree_witness:
  "(\<exists>cl. fst (FullRes_clusters new_symm 0) = Inr cl \<and> length cl = 80)
   \<and> (fst (FullRes_clusters new_symm 64) = Inl RuntimeError
        \<or> (\<exists>cl theta. fst (FullRes_clusters new_symm 64) = Inr cl \<and> length cl = 80
              \<and> coeffTheta (pyint (sqrt (real_of_int 64 / pi) + 1)) 3 = Inr theta
              \<and> 3 \<in> set (cl ! nat (min 79 \<lfloor>theta * 180 / pi\<rfloor>))))"
proof
  have "(0::int) \<le> 0" by simp
  with reach_new have "(fst (FullRes_clusters new_symm 0) = Inl RuntimeError
            \<and> (\<exists>idx. 0 \<le> idx \<and> idx < 0
                  \<and> idx2Pix idx (pyint (sqrt (real_of_int 0 / pi) + 1)) = Inl RuntimeError))
         \<or> (\<exists>cl. fst (FullRes_clusters new_symm 0) = Inr cl \<and> length cl = 80
              \<and> (\<forall>idx. 0 \<le> idx \<and> idx < 0 \<longrightarrow>
                    (\<exists>theta. coeffTheta (pyint (sqrt (real_of_int 0 / pi) + 1)) idx = Inr theta
                       \<and> idx \<in> set (cl ! nat (min 79 \<lfloor>theta * 180 / pi\<rfloor>))
                       \<and> (\<forall>j < 80. j \<noteq> nat (min 79 \<lfloor>theta * 180 / pi\<rfloor>) \<longrightarrow> idx \<notin> set (cl ! j)))))"
    by (rule FullRes_clusters_by_degree)
  then show "\<exists>cl. fst (FullRes_clusters new_symm 0) = Inr cl \<and> length cl = 80"
    by auto
next
  have "(0::int) \<le> 64" by simp
  with reach_new have "(fst (FullRes_clusters new_symm 64) = Inl RuntimeError
            \<and> (\<exists>idx. 0 \<le> idx \<and> idx < 64
                  \<and> idx2Pix idx (pyint (sqrt (real_of_int 64 / pi) + 1)) = Inl RuntimeError))
         \<or> (\<exists>cl. fst (FullRes_clusters new_symm 64) = Inr cl \<and> length cl = 80
              \<and> (\<forall>idx. 0 \<le> idx \<and> idx < 64 \<longrightarrow>
                    (\<exists>theta. coeffTheta (pyint (sqrt (real_of_int 64 / pi) + 1)) idx = Inr theta
                       \<and> idx \<in> set (cl ! nat (min 79 \<lfloor>theta * 180 / pi\<rfloor>))
                       \<and> (\<forall>j < 80. j \<noteq> nat (min 79 \<lfloor>theta * 180 / pi\<rfloor>) \<longrightarrow> idx \<notin> set (cl ! j)))))"
    by (rule FullRes_clusters_by_degree)
  then show "fst (FullRes_clusters new_symm 64) = Inl RuntimeError
        \<or> (\<exists>cl theta. fst (FullRes_clusters new_symm 64) = Inr cl \<and> length cl = 80
              \<and> coeffTheta (pyint (sqrt (real_of_int 64 / pi) + 1)) 3 = Inr theta
              \<and> 3 \<in> set (cl ! nat (min 79 \<lfloor>theta * 180 / pi\<rfloor>)))"
  proof
    assume "fst (FullRes_clusters new_symm 64) = Inl RuntimeError
            \<and> (\<exists>idx. 0 \<le> idx \<and> idx < 64
                  \<and> idx2Pix idx (pyint (sqrt (real_of_int 64 / pi) + 1)) = Inl RuntimeError)"
    then show ?thesis by blast
  next
    assume "\<exists>cl. fst (FullRes_clusters new_symm 64) = Inr cl \<and> length cl = 80
              \<and> (\<forall>idx. 0 \<le> idx \<and> idx < 64 \<longrightarrow>
                    (\<exists>theta. coeffTheta (pyint (sqrt (real_of_int 64 / pi) + 1)) idx = Inr theta
                       \<and> idx \<in> set (cl ! nat (min 79 \<lfloor>theta * 180 / pi\<rfloor>))
                       \<and> (\<forall>j < 80. j \<noteq> nat (min 79 \<lfloor>theta * 180 / pi\<rfloor>) \<longrightarrow> idx \<notin> set (cl ! j))))"
    then obtain cl where cl: "fst (FullRes_clusters new_symm 64) = Inr cl" "length cl = 80"
      and all: "\<And>idx. 0 \<le> idx \<and> idx < 64 \<Longrightarrow>
                    (\<exists>theta. coeffTheta (pyint (sqrt (real_of_int 64 / pi) + 1)) idx = Inr theta
                       \<and> idx \<in> set (cl ! nat (min 79 \<lfloor>theta * 180 / pi\<rfloor>)))"
      by blast
    have "(0::int) \<le> 3 \<and> (3::int) < 64" by simp
    from all [OF this] cl show ?thesis by blast
  qed
qed

section \<open>Reinhart solid angles: the shape of the result\<close>

lemma arange_nth: "k < nat (b - a) \<Longrightarrow> arange a b ! k = a + int k"
  unfolding arange_def by (simp add: nth_upto)

lemma arange_shift: "arange (a + c) (b + c) = map (\<lambda>j. j + c) (arange a b)"
  by (rule nth_equalityI) (simp_all add: length_arange arange_nth)

lemma linspace_positive:
  assumes "1 \<le> MF"
  shows "filter (\<lambda>a. 0 < a)
           (map (\<lambda>k. - 0.5 * pi + real_of_int k * ((0.5 * pi - (- 0.5 * pi)) / real_of_int (2 * MF * 7 + 2 - 1)))
              (arange 0 (2 * MF * 7 + 2)))
         = map (\<lambda>j. pi / real_of_int (14 * MF + 1) * (real_of_int j + 1 / 2)) (arange 0 (7 * MF + 1))"
proof -
  let ?D = "real_of_int (14 * MF + 1)"
  let ?f = "\<lambda>k. - 0.5 * pi + real_of_int k * ((0.5 * pi - (- 0.5 * pi)) / real_of_int (2 * MF * 7 + 2 - 1))"
  have D: "0 < ?D" using assms by simp
  have f: "?f k = pi / ?D * (real_of_int k - ?D / 2)" for k
    using D by (simp add: field_simps)
  have pos: "0 < ?f k \<longleftrightarrow> 7 * MF + 1 \<le> k" for k
  proof -
    have c: "0 < pi / ?D" using D by simp
    have "0 < ?f k \<longleftrightarrow> 0 < real_of_int k - ?D / 2"
      unfolding f using c zero_less_mult_pos [OF _ c] mult_pos_pos [OF c] by blast
    also have "\<dots> \<longleftrightarrow> real_of_int (14 * MF + 1) < real_of_int (2 * k)" by auto
    also have "\<dots> \<longleftrightarrow> 14 * MF + 1 < 2 * k" by (simp only: of_int_less_iff)
    also have "\<dots> \<longleftrightarrow> 7 * MF + 1 \<le> k" by auto
    finally show ?thesis .
  qed
  have sp: "arange 0 (2 * MF * 7 + 2) = arange 0 (7 * MF + 1) @ arange (7 * MF + 1) (2 * MF * 7 + 2)"
    using assms by (intro arange_append) simp_all
  have "filter (\<lambda>a. 0 < a) (map ?f (arange 0 (2 * MF * 7 + 2)))
        = map ?f (filter (\<lambda>k. 7 * MF + 1 \<le> k) (arange 0 (2 * MF * 7 + 2)))"
    by (simp only: filter_map comp_def pos)
  also have "filter (\<lambda>k. 7 * MF + 1 \<le> k) (arange 0 (2 * MF * 7 + 2)) = arange (7 * MF + 1) (2 * MF * 7 + 2)"
    unfolding sp by (auto simp: set_arange filter_empty_conv filter_id_conv)
  also have "arange (7 * MF + 1) (2 * MF * 7 + 2) = map (\<lambda>j. j + (7 * MF + 1)) (arange 0 (7 * MF + 1))"
    using arange_shift [of 0 "7 * MF + 1" "7 * MF + 1"] by (simp add: algebra_simps)
  also have "map ?f (map (\<lambda>j. j + (7 * MF + 1)) (arange 0 (7 * MF + 1)))
        = map (\<lambda>j. pi / ?D * (real_of_int j + 1 / 2)) (arange 0 (7 * MF + 1))"
    unfolding map_map comp_def f by (rule map_cong) (simp_all add: field_simps)
  finally show ?thesis .
qed

lemma azimuthDivs_blocks:
  "azimuthDivs_of MF = 1 # concat (map (\<lambda>i. replicate (nat MF) (MF * i)) [6, 12, 18, 24, 24, 30, 30])"
  by (simp add: azimuthDivs_of_def map_replicate_const length_arange)

lemma azimuthDivs_facts:
  assumes "1 \<le> MF"
  shows "length (azimuthDivs_of MF) = Suc (nat (7 * MF))"
    and "sum_list (tl (azimuthDivs_of MF)) = 144 * MF\<^sup>2"
    and "\<forall>a \<in> set (azimuthDivs_of MF). 0 < a"
proof -
  show "length (azimuthDivs_of MF) = Suc (nat (7 * MF))"
    using assms by (simp add: azimuthDivs_blocks)
  show "sum_list (tl (azimuthDivs_of MF)) = 144 * MF\<^sup>2"
    using assms by (simp add: azimuthDivs_blocks sum_list_replicate power2_eq_square)
  show "\<forall>a \<in> set (azimuthDivs_of MF). 0 < a"
    using assms by (auto simp: azimuthDivs_blocks)
qed

lemma map_nth_tl: "map (\<lambda>t. (x # xs) ! t) [1..<Suc (length xs)] = xs"
  by (rule nth_equalityI) (simp_all del: upt_Suc)

lemma length_row_values:
  assumes "1 \<le> MF"
  shows "length (row_values F MF) = nat (144 * MF\<^sup>2)"
proof -
  let ?az = "azimuthDivs_of MF"
  note f = azimuthDivs_facts [OF assms]
  obtain x xs where az: "?az = x # xs" using f(1) by (cases ?az) auto
  have lx: "length xs = nat (7 * MF)" using f(1) az by simp
  have "length (row_values F MF) = sum_list (map (\<lambda>t. nat (?az ! t)) [1..<Suc (nat (7 * MF))])"
    by (simp add: row_values_def length_concat comp_def length_arange del: upt_Suc)
  also have "\<dots> = sum_list (map nat (map (\<lambda>t. ?az ! t) [1..<Suc (nat (7 * MF))]))"
    by (simp add: comp_def del: upt_Suc)
  also have "map (\<lambda>t. ?az ! t) [1..<Suc (nat (7 * MF))] = xs"
    unfolding az lx [symmetric] by (rule map_nth_tl)
  also have "sum_list (map nat xs) = nat (sum_list xs)"
  proof -
    have "\<forall>a \<in> set xs. 0 \<le> a" using f(3) az by auto
    then show ?thesis
      by (induction xs) (auto simp: nat_add_distrib sum_list_nonneg)
  qed
  also have "sum_list xs = 144 * MF\<^sup>2" using f(2) az by simp
  finally show ?thesis .
qed

lemma polarAngles_shape:
  assumes "1 \<le> MF"
  defines "P \<equiv> map (\<lambda>j. rstep MF * (real_of_int j + 1 / 2)) (arange 0 (7 * MF + 1))"
  shows "length P = Suc (nat (7 * MF))"
    and "(0 # P) ! 1 = rstep MF / 2"
    and "\<And>t. 1 \<le> t \<Longrightarrow> t < Suc (nat (7 * MF)) \<Longrightarrow>
           ([0] @ map2 (\<lambda>a b. 0.5 * (a + b)) (butlast (tl ([0] @ P))) (drop 2 ([0] @ P))) ! t
             = rstep MF * real t"
proof -
  show l: "length P = Suc (nat (7 * MF))"
    using assms(1) by (simp add: P_def length_arange nat_add_distrib)
  have nth: "P ! k = rstep MF * (real k + 1 / 2)" if "k < Suc (nat (7 * MF))" for k
    using that assms(1) by (simp add: P_def length_arange arange_nth nat_add_distrib)
  show "(0 # P) ! 1 = rstep MF / 2" using nth [of 0] by simp
  fix t :: nat assume t: "1 \<le> t" "t < Suc (nat (7 * MF))"
  obtain k where k: "t = Suc k" using t(1) by (cases t) auto
  have kl: "k < length (butlast P)" "k < length (tl P)" using t(2) k l by simp_all
  have "([0] @ map2 (\<lambda>a b. 0.5 * (a + b)) (butlast (tl ([0] @ P))) (drop 2 ([0] @ P))) ! t
        = map2 (\<lambda>a b. 0.5 * (a + b)) (butlast P) (tl P) ! k"
    by (simp add: k drop_Suc)
  also have "\<dots> = 0.5 * (butlast P ! k + tl P ! k)" using kl by simp
  also have "butlast P ! k = P ! k" using kl(1) by (simp add: nth_butlast)
  also have "tl P ! k = P ! Suc k" using kl(2) by (simp add: nth_tl)
  also have "0.5 * (P ! k + P ! Suc k) = rstep MF * real t"
    using nth [of k] nth [of "Suc k"] t(2) k by (simp add: algebra_simps)
  finally show "([0] @ map2 (\<lambda>a b. 0.5 * (a + b)) (butlast (tl ([0] @ P))) (drop 2 ([0] @ P))) ! t
             = rstep MF * real t" .
qed

lemma row_values_cong:
  assumes "\<And>t. 1 \<le> t \<Longrightarrow> t < Suc (nat (7 * MF)) \<Longrightarrow> F t = G t"
  shows "row_values F MF = row_values G MF"
  unfolding row_values_def
  by (rule arg_cong [where f = concat], rule map_cong) (simp_all add: assms del: upt_Suc)

lemma reinhart_unfold:
  assumes "1 \<le> MF"
  shows "reinhartSolidAngles MF =
           Inr (rev (2 * pi * (1 - cos (rstep MF / 2)) #
                     row_values (\<lambda>t. sin (rstep MF * real t) * rstep MF * 2 * pi
                                      / real_of_int (azimuthDivs_of MF ! t)) MF),
                rev (pi * (1 - (cos (rstep MF / 2))\<^sup>2) / (2 * pi * (1 - cos (rstep MF / 2))) #
                     row_values (\<lambda>t. cos (rstep MF * real t)) MF))"
proof -
  let ?P = "map (\<lambda>j. rstep MF * (real_of_int j + 1 / 2)) (arange 0 (7 * MF + 1))"
  let ?M = "[0] @ map2 (\<lambda>a b. 0.5 * (a + b)) (butlast (tl ([0] @ ?P))) (drop 2 ([0] @ ?P))"
  note sh = polarAngles_shape [OF assms]
  have lin: "linspace (- 0.5 * pi) (0.5 * pi) (2 * MF * 7 + 2)
      = Inr (map (\<lambda>k. - 0.5 * pi + real_of_int k * ((0.5 * pi - (- 0.5 * pi)) / real_of_int (2 * MF * 7 + 2 - 1)))
              (arange 0 (2 * MF * 7 + 2)), (0.5 * pi - (- 0.5 * pi)) / real_of_int (2 * MF * 7 + 2 - 1))"
    using assms unfolding linspace_def Let_def by simp
  have st: "(0.5 * pi - (- 0.5 * pi)) / real_of_int (2 * MF * 7 + 2 - 1) = rstep MF"
    by (simp add: rstep_def)
  have pos: "filter (\<lambda>a. 0 < a)
           (map (\<lambda>k. - 0.5 * pi + real_of_int k * rstep MF) (arange 0 (2 * MF * 7 + 2))) = ?P"
    unfolding st [symmetric] linspace_positive [OF assms] unfolding st rstep_def ..
  have np: "length ([0] @ ?P) - 1 = Suc (nat (7 * MF))" using sh(1) by simp
  have nb: "nat (MF\<^sup>2 * 144 + 1 - 1) = nat (144 * MF\<^sup>2)" by (simp add: mult.commute)
  have a1: "([0] @ ?P) ! 1 = rstep MF / 2" using sh(2) by simp
  have d: "[sin (?M ! t) * rstep MF * 2 * pi / real_of_int (azimuthDivs_of MF ! t).
              t \<leftarrow> [1..<Suc (nat (7 * MF))], p \<leftarrow> arange 0 (azimuthDivs_of MF ! t)]
           = row_values (\<lambda>t. sin (rstep MF * real t) * rstep MF * 2 * pi
                                / real_of_int (azimuthDivs_of MF ! t)) MF"
    unfolding row_values_def [symmetric] by (rule row_values_cong) (simp only: sh(3))
  have c: "[cos (?M ! t). t \<leftarrow> [1..<Suc (nat (7 * MF))], p \<leftarrow> arange 0 (azimuthDivs_of MF ! t)]
           = row_values (\<lambda>t. cos (rstep MF * real t)) MF"
    unfolding row_values_def [symmetric] by (rule row_values_cong) (simp only: sh(3))
  show ?thesis
    unfolding reinhartSolidAngles_def Let_def lin sum.case prod.case st pos np nb a1 d c
    by (simp add: assign_tail_def length_row_values [OF assms])
qed

lemma row_values_last:
  assumes "1 \<le> MF"
  shows "row_values G MF \<noteq> []" and "last (row_values G MF) = G (nat (7 * MF))"
proof -
  let ?n = "nat (7 * MF)"
  let ?az = "azimuthDivs_of MF"
  let ?f = "\<lambda>t. map (\<lambda>p. G t) (arange 0 (?az ! t))"
  note f = azimuthDivs_facts [OF assms]
  have n1: "1 \<le> ?n" using assms by simp
  have "?az ! ?n \<in> set ?az" using f(1) by (intro nth_mem) simp
  then have pos: "0 < ?az ! ?n" using f(3) by blast
  have ne: "?f ?n \<noteq> []" using pos by (simp add: arange_def)
  have "[1..<Suc ?n] = [1..<?n] @ [?n]" using n1 by simp
  then have r: "row_values G MF = concat (map ?f [1..<?n]) @ ?f ?n"
    by (simp add: row_values_def del: upt_Suc)
  show "row_values G MF \<noteq> []" unfolding r using ne by simp
  have "last (row_values G MF) = last (?f ?n)" unfolding r using ne by simp
  also have "\<dots> = G ?n" using ne by (simp add: last_map)
  finally show "last (row_values G MF) = G (nat (7 * MF))" .
qed

lemma cap_cosine:
  assumes "0 < x" "x < pi"
  shows "pi * (1 - (cos x)\<^sup>2) / (2 * pi * (1 - cos x)) = (1 + cos x) / 2"
proof -
  have "cos x < cos 0" using assms by (intro cos_monotone_0_pi) simp_all
  then have nz: "1 - cos x \<noteq> 0" by simp
  have "pi * (1 - (cos x)\<^sup>2) / (2 * pi * (1 - cos x))
        = (pi * (1 - cos x)) * (1 + cos x) / ((pi * (1 - cos x)) * 2)"
    by (simp add: power2_eq_square algebra_simps)
  also have "\<dots> = (1 + cos x) / 2"
    using nz by (intro mult_divide_mult_cancel_left) simp
  finally show ?thesis .
qed

text \<open>
  For \<open>MF = 1\<close> the returned element 0 is not the polar cap: its cosine entry is the cosine
  of the midpoint of the row at the horizon, \<open>cos(7 pi / 15)\<close>, which is less than 1/2,
  whereas the cosine term of the cap is greater than 1/2.
\<close>

theorem reinhartSolidAngles_cap_counterexample:
  "\<exists>dOmega cosOmega. reinhartSolidAngles 1 = Inr (dOmega, cosOmega)
      \<and> cosOmega ! 0 = cos (7 * pi / 15)
      \<and> cosOmega ! 0 \<noteq> pi * (1 - (cos (pi / 30))\<^sup>2) / (2 * pi * (1 - cos (pi / 30)))"
proof -
  let ?c = "pi * (1 - (cos (rstep 1 / 2))\<^sup>2) / (2 * pi * (1 - cos (rstep 1 / 2)))"
  let ?xs = "row_values (\<lambda>t. cos (rstep 1 * real t)) 1"
  have l: "?xs \<noteq> []" "last ?xs = cos (rstep 1 * real (nat (7 * 1)))"
    using row_values_last [of 1] by simp_all
  have "rev (?c # ?xs) ! 0 = hd (rev (?c # ?xs))" by (simp add: hd_conv_nth)
  also have "\<dots> = last (?c # ?xs)" by (rule hd_rev)
  also have "\<dots> = cos (7 * pi / 15)" using l by (simp add: rstep_def mult.commute)
  finally have a: "rev (?c # ?xs) ! 0 = cos (7 * pi / 15)" .
  have "cos (7 * pi / 15) < cos (pi / 3)" by (intro cos_monotone_0_pi) simp_all
  then have lt: "cos (7 * pi / 15) < 1 / 2" by (simp add: cos_60)
  have "0 < cos (pi / 30)" by (intro cos_gt_zero) simp_all
  then have "1 / 2 < (1 + cos (pi / 30)) / 2" by simp
  moreover have "pi * (1 - (cos (pi / 30))\<^sup>2) / (2 * pi * (1 - cos (pi / 30))) = (1 + cos (pi / 30)) / 2"
    by (intro cap_cosine) simp_all
  ultimately have b: "cos (7 * pi / 15) \<noteq> pi * (1 - (cos (pi / 30))\<^sup>2) / (2 * pi * (1 - cos (pi / 30)))"
    using lt by linarith
  show ?thesis
    unfolding reinhart_unfold [of 1, simplified] using a b by (intro exI conjI) (rule refl, simp_all)
qed

text \<open>
  C4, as the code behaves. For every positive integer \<open>MF\<close>, \<open>reinhartSolidAngles(MF)\<close>
  returns two sequences of length \<open>144 * MF^2 + 1\<close> each; after the reversal the polar
  cap is the last element, at index \<open>144 * MF^2\<close> (element 0 belongs to the row at the
  horizon). Its solid angle is \<open>2 pi (1 - cos(theta1))\<close> and its cosine entry is
  \<open>pi (1 - cos(theta1)^2)\<close> divided by that solid angle, where \<open>theta1\<close>, the first
  positive polar angle, is \<open>pi / (2 (14 MF + 1))\<close>.
\<close>

theorem reinhartSolidAngles_cap:
  assumes "1 \<le> MF"
  shows "\<exists>dOmega cosOmega. reinhartSolidAngles MF = Inr (dOmega, cosOmega)
      \<and> length dOmega = nat (144 * MF\<^sup>2 + 1) \<and> length cosOmega = nat (144 * MF\<^sup>2 + 1)
      \<and> dOmega ! nat (144 * MF\<^sup>2) = 2 * pi * (1 - cos (pi / real_of_int (2 * (14 * MF + 1))))
      \<and> cosOmega ! nat (144 * MF\<^sup>2)
          = pi * (1 - (cos (pi / real_of_int (2 * (14 * MF + 1))))\<^sup>2) / dOmega ! nat (144 * MF\<^sup>2)"
proof -
  let ?d = "2 * pi * (1 - cos (rstep MF / 2))"
  let ?c = "pi * (1 - (cos (rstep MF / 2))\<^sup>2) / ?d"
  let ?ds = "row_values (\<lambda>t. sin (rstep MF * real t) * rstep MF * 2 * pi
                                      / real_of_int (azimuthDivs_of MF ! t)) MF"
  let ?cs = "row_values (\<lambda>t. cos (rstep MF * real t)) MF"
  have th: "rstep MF / 2 = pi / real_of_int (2 * (14 * MF + 1))" by (simp add: rstep_def)
  have n: "nat (144 * MF\<^sup>2 + 1) = Suc (nat (144 * MF\<^sup>2))" by (simp add: nat_add_distrib)
  have l: "length ?ds = nat (144 * MF\<^sup>2)" "length ?cs = nat (144 * MF\<^sup>2)"
    by (rule length_row_values [OF assms])+
  have nd: "rev (?d # ?ds) ! nat (144 * MF\<^sup>2) = ?d"
    using nth_append_length [of "rev ?ds" ?d "[]"] l(1) by simp
  have nc: "rev (?c # ?cs) ! nat (144 * MF\<^sup>2) = ?c"
    using nth_append_length [of "rev ?cs" ?c "[]"] l(2) by simp
  show ?thesis
    unfolding reinhart_unfold [OF assms] th [symmetric]
    by (intro exI conjI, rule refl) (simp_all only: nd nc length_rev length_Cons l n)
qed

theorem reinhartSolidAngles_cap_witness:
  "\<exists>dOmega cosOmega. reinhartSolidAngles 1 = Inr (dOmega, cosOmega)
      \<and> length dOmega = 145 \<and> length cosOmega = 145
      \<and> dOmega ! 144 = 2 * pi * (1 - cos (pi / 30))"
  using reinhartSolidAngles_cap [of 1] by fastforce

section \<open>Reinhart solid angles: the sums\<close>

lemma sum_list_concat_const:
  "sum_list (concat (map (\<lambda>t. map (\<lambda>p. F t) (k t)) ts))
     = sum_list (map (\<lambda>t. real (length (k t)) * F t) ts)"
  by (induction ts) (simp_all add: sum_list_triv)

lemma sum_list_row_values:
  "sum_list (row_values F MF)
     = (\<Sum>t = 1..<Suc (nat (7 * MF)). real (nat (azimuthDivs_of MF ! t)) * F t)"
proof -
  have "sum_list (row_values F MF)
        = sum_list (map (\<lambda>t. real (nat (azimuthDivs_of MF ! t)) * F t) [1..<Suc (nat (7 * MF))])"
    unfolding row_values_def sum_list_concat_const
    by (simp add: length_arange del: upt_Suc)
  then show ?thesis by (simp add: interv_sum_list_conv_sum_set_nat del: upt_Suc)
qed

lemma map2_const: "map2 h (map (\<lambda>p. c) xs) (map (\<lambda>p. d) xs) = map (\<lambda>p. h c d) xs"
  by (induction xs) simp_all

lemma map2_concat:
  "map2 h (concat (map (\<lambda>t. map (\<lambda>p. F t) (k t)) ts)) (concat (map (\<lambda>t. map (\<lambda>p. G t) (k t)) ts))
     = concat (map (\<lambda>t. map (\<lambda>p. h (F t) (G t)) (k t)) ts)"
proof (induction ts)
  case Nil
  then show ?case by simp
next
  case (Cons t ts)
  show ?case using Cons by (simp add: zip_append map2_const)
qed

lemma map2_row_values:
  "map2 (*) (row_values F MF) (row_values G MF) = row_values (\<lambda>t. F t * G t) MF"
  unfolding row_values_def by (rule map2_concat)

lemma sin_sum:
  "2 * sin (a / 2) * (\<Sum>t = 1..<Suc n. sin (a * real t)) = cos (a / 2) - cos ((real n + 1 / 2) * a)"
proof (induction n)
  case 0
  then show ?case by simp
next
  case (Suc n)
  have e1: "((real n + 1 / 2) * a + (real (Suc n) + 1 / 2) * a) / 2 = a * real (Suc n)"
    by (simp add: algebra_simps)
  have e2: "((real (Suc n) + 1 / 2) * a - (real n + 1 / 2) * a) / 2 = a / 2"
    by (simp add: algebra_simps)
  have "cos ((real n + 1 / 2) * a) - cos ((real (Suc n) + 1 / 2) * a)
        = 2 * sin (a * real (Suc n)) * sin (a / 2)"
    using cos_diff_cos [of "(real n + 1 / 2) * a" "(real (Suc n) + 1 / 2) * a"]
    unfolding e1 e2 .
  then have "cos ((real n + 1 / 2) * a) - cos ((real (Suc n) + 1 / 2) * a)
        = 2 * sin (a / 2) * sin (a * real (Suc n))"
    by (simp only: mult.assoc mult.commute [of "sin (a / 2)"])
  moreover have "(\<Sum>t = 1..<Suc (Suc n). sin (a * real t))
        = (\<Sum>t = 1..<Suc n. sin (a * real t)) + sin (a * real (Suc n))"
    by simp
  ultimately show ?case using Suc by (simp only: distrib_left)
qed

lemma rstep_range:
  assumes "1 \<le> MF"
  shows "0 < rstep MF" "rstep MF / 2 < pi / 2" "(real (nat (7 * MF)) + 1 / 2) * rstep MF = pi / 2"
proof -
  have D: "0 < real_of_int (14 * MF + 1)" using assms by simp
  show "0 < rstep MF" using D by (simp add: rstep_def)
  have "1 < real_of_int (14 * MF + 1)" using assms by simp
  then have "pi / real_of_int (14 * MF + 1) < pi / 1"
    by (intro divide_strict_left_mono) simp_all
  then have "rstep MF < pi" by (simp add: rstep_def)
  then show "rstep MF / 2 < pi / 2" by simp
  have "real (nat (7 * MF)) = 7 * real_of_int MF" using assms by simp
  then show "(real (nat (7 * MF)) + 1 / 2) * rstep MF = pi / 2"
    using D by (simp add: rstep_def field_simps)
qed

lemma azimuth_pos:
  assumes "1 \<le> MF" "t < Suc (nat (7 * MF))"
  shows "0 < azimuthDivs_of MF ! t"
proof -
  note f = azimuthDivs_facts [OF assms(1)]
  have "azimuthDivs_of MF ! t \<in> set (azimuthDivs_of MF)" using f(1) assms(2) by (intro nth_mem) simp
  then show ?thesis using f(3) by blast
qed

lemma row_sum:
  assumes "1 \<le> MF"
  shows "sum_list (row_values (\<lambda>t. H t * rstep MF * 2 * pi / real_of_int (azimuthDivs_of MF ! t)) MF)
         = 2 * pi * rstep MF * (\<Sum>t = 1..<Suc (nat (7 * MF)). H t)"
proof -
  have "real (nat (azimuthDivs_of MF ! t)) * (H t * rstep MF * 2 * pi / real_of_int (azimuthDivs_of MF ! t))
        = 2 * pi * rstep MF * H t" if "t \<in> {1..<Suc (nat (7 * MF))}" for t
  proof -
    have "0 < azimuthDivs_of MF ! t" using azimuth_pos [OF assms, of t] that by simp
    then show ?thesis by simp
  qed
  then show ?thesis
    unfolding sum_list_row_values sum_distrib_left by (intro sum.cong) simp_all
qed

lemma sin_row_sum:
  assumes "1 \<le> MF"
  shows "(\<Sum>t = 1..<Suc (nat (7 * MF)). sin (rstep MF * real t))
         = cos (rstep MF / 2) / (2 * sin (rstep MF / 2))"
proof -
  note r = rstep_range [OF assms]
  have "0 < sin (rstep MF / 2)" using r by (intro sin_gt_zero) simp_all
  then have nz: "2 * sin (rstep MF / 2) \<noteq> 0" by simp
  have "2 * sin (rstep MF / 2) * (\<Sum>t = 1..<Suc (nat (7 * MF)). sin (rstep MF * real t))
        = cos (rstep MF / 2)"
    unfolding sin_sum r(3) by simp
  then show ?thesis using nz by (simp add: field_simps)
qed

lemma sincos_row_sum:
  assumes "1 \<le> MF"
  shows "(\<Sum>t = 1..<Suc (nat (7 * MF)). sin (rstep MF * real t) * cos (rstep MF * real t))
         = (cos (rstep MF) + 1) / (4 * sin (rstep MF))"
proof -
  note r = rstep_range [OF assms]
  define A where "A = (\<Sum>t = 1..<Suc (nat (7 * MF)). sin (2 * rstep MF * real t))"
  define B where "B = (\<Sum>t = 1..<Suc (nat (7 * MF)). sin (rstep MF * real t) * cos (rstep MF * real t))"
  have "0 < sin (rstep MF)" using r by (intro sin_gt_zero) simp_all
  then have nz: "sin (rstep MF) \<noteq> 0" by simp
  have e: "(real (nat (7 * MF)) + 1 / 2) * (2 * rstep MF) = pi" using r(3) by simp
  have "2 * sin (2 * rstep MF / 2) * A = cos (2 * rstep MF / 2) - cos pi"
    unfolding A_def sin_sum e ..
  then have s: "2 * sin (rstep MF) * A = cos (rstep MF) + 1" by simp
  have "B = (\<Sum>t = 1..<Suc (nat (7 * MF)). sin (2 * rstep MF * real t) / 2)"
    unfolding B_def by (intro sum.cong refl) (simp add: sin_double mult.assoc)
  also have "\<dots> = A / 2"
    unfolding A_def by (simp only: sum_divide_distrib)
  finally have ba: "B = A / 2" .
  have "A = (cos (rstep MF) + 1) / (2 * sin (rstep MF))"
    using s nz by (simp add: field_simps)
  then have "B = (cos (rstep MF) + 1) / (4 * sin (rstep MF))"
    unfolding ba by simp
  then show ?thesis unfolding B_def .
qed

lemma sumOmega_closed:
  assumes "1 \<le> MF"
  shows "sumOmega MF = Inr (closedOmega MF)"
proof -
  let ?x = "rstep MF / 2"
  note r = rstep_range [OF assms]
  have "0 < sin ?x" using r by (intro sin_gt_zero) simp_all
  then have nz: "sin ?x \<noteq> 0" by simp
  have "sum_list (row_values (\<lambda>t. sin (rstep MF * real t) * rstep MF * 2 * pi
                                / real_of_int (azimuthDivs_of MF ! t)) MF)
        = 2 * pi * rstep MF * (cos ?x / (2 * sin ?x))"
    unfolding row_sum [OF assms] sin_row_sum [OF assms] ..
  also have "\<dots> = 2 * pi * (?x * cos ?x / sin ?x)" by simp
  finally show ?thesis
    unfolding sumOmega_def reinhart_unfold [OF assms] closedOmega_def Let_def
    by (simp add: algebra_simps)
qed

lemma sumProjOmega_closed:
  assumes "1 \<le> MF"
  shows "sumProjOmega MF = Inr (closedProj MF)"
proof -
  let ?x = "rstep MF / 2"
  let ?d = "2 * pi * (1 - cos ?x)"
  let ?c = "pi * (1 - (cos ?x)\<^sup>2) / ?d"
  let ?F = "\<lambda>t. sin (rstep MF * real t) * rstep MF * 2 * pi / real_of_int (azimuthDivs_of MF ! t)"
  let ?G = "\<lambda>t. cos (rstep MF * real t)"
  note r = rstep_range [OF assms]
  have sx: "0 < sin ?x" using r by (intro sin_gt_zero) simp_all
  have cx: "0 < cos ?x" using r by (intro cos_gt_zero) simp_all
  have "cos ?x < cos 0" using r by (intro cos_monotone_0_pi) simp_all
  then have d0: "?d \<noteq> 0" by simp
  have "?d * ?c = pi * (1 - (cos ?x)\<^sup>2)"
    using d0 by (metis nonzero_mult_div_cancel_left times_divide_eq_right)
  then have dc: "?d * ?c = pi * (sin ?x)\<^sup>2"
    by (simp only: sin_squared_eq)
  have l: "length (row_values ?F MF) = length (row_values ?G MF)"
    by (simp add: length_row_values [OF assms])
  have "map2 (*) (rev (?d # row_values ?F MF)) (rev (?c # row_values ?G MF))
        = rev (map2 (*) (?d # row_values ?F MF) (?c # row_values ?G MF))"
    using l by (simp add: zip_rev rev_map)
  also have "\<dots> = rev (?d * ?c # row_values (\<lambda>t. ?F t * ?G t) MF)"
    by (simp only: zip_Cons_Cons list.map prod.case map2_row_values)
  finally have "sum_list (map2 (*) (rev (?d # row_values ?F MF)) (rev (?c # row_values ?G MF)))
        = ?d * ?c + sum_list (row_values (\<lambda>t. ?F t * ?G t) MF)"
    by (simp only: sum_list_rev sum_list.Cons)
  also have "row_values (\<lambda>t. ?F t * ?G t) MF
        = row_values (\<lambda>t. (sin (rstep MF * real t) * cos (rstep MF * real t)) * rstep MF * 2 * pi
                             / real_of_int (azimuthDivs_of MF ! t)) MF"
    by (rule row_values_cong) simp
  also have "sum_list \<dots> = 2 * pi * rstep MF * ((cos (rstep MF) + 1) / (4 * sin (rstep MF)))"
    unfolding row_sum [OF assms] sincos_row_sum [OF assms] ..
  also have "(cos (rstep MF) + 1) / (4 * sin (rstep MF)) = cos ?x / (4 * sin ?x)"
  proof -
    have "cos (rstep MF) + 1 = 2 * (cos ?x)\<^sup>2"
      using cos_double_cos [of ?x] by simp
    moreover have "sin (rstep MF) = 2 * sin ?x * cos ?x"
      using sin_double [of ?x] by simp
    ultimately show ?thesis using sx cx by (simp add: power2_eq_square)
  qed
  finally have "sum_list (map2 (*) (rev (?d # row_values ?F MF)) (rev (?c # row_values ?G MF)))
        = pi * (sin ?x)\<^sup>2 + pi * (?x * cos ?x / sin ?x)"
    unfolding dc by simp
  then show ?thesis
    unfolding sumProjOmega_def reinhart_unfold [OF assms] closedProj_def Let_def
    by (simp add: algebra_simps)
qed

section \<open>Reinhart solid angles: convergence\<close>

lemma x_cos_le_sin:
  assumes "0 \<le> (x::real)" "x \<le> pi"
  shows "x * cos x \<le> sin x"
proof -
  have "(\<lambda>y. sin y - y * cos y) 0 \<le> (\<lambda>y. sin y - y * cos y) x"
  proof (rule DERIV_nonneg_imp_nondecreasing [OF assms(1)])
    fix y assume y: "0 \<le> y" "y \<le> x"
    have "((\<lambda>y. sin y - y * cos y) has_real_derivative y * sin y) (at y)"
      by (auto intro!: derivative_eq_intros)
    moreover have "0 \<le> y * sin y"
      using y assms(2) by (intro mult_nonneg_nonneg sin_ge_zero) simp_all
    ultimately show "\<exists>d. ((\<lambda>y. sin y - y * cos y) has_real_derivative d) (at y) \<and> 0 \<le> d"
      by blast
  qed
  then show ?thesis by simp
qed

lemma sin_squared_le: "(sin x)\<^sup>2 \<le> (x::real)\<^sup>2"
  using abs_sin_x_le_abs_x [of x] by (simp only: abs_le_square_iff)

lemma cot_bounds:
  assumes "0 < (x::real)" "x < pi / 2"
  shows "cos x \<le> x * cos x / sin x" "x * cos x / sin x \<le> 1"
proof -
  have s: "0 < sin x" using assms by (intro sin_gt_zero) simp_all
  have c: "0 \<le> cos x" using assms by (intro cos_ge_zero) simp_all
  have "sin x \<le> x" using assms by (intro sin_x_le_x) simp
  then have "cos x * sin x \<le> cos x * x" using c by (rule mult_left_mono)
  then have "cos x * sin x \<le> x * cos x" by (simp only: mult.commute)
  then show "cos x \<le> x * cos x / sin x" using s by (simp add: pos_le_divide_eq)
  have "x * cos x \<le> sin x" using assms by (intro x_cos_le_sin) simp_all
  then show "x * cos x / sin x \<le> 1" using s by simp
qed

lemma closed_errors:
  assumes "1 \<le> MF"
  shows "0 \<le> closedOmega MF - 2 * pi" "closedOmega MF - 2 * pi \<le> 2 * pi * (4 / (real_of_int (14 * MF + 1))\<^sup>2)"
    "0 \<le> closedProj MF - pi" "closedProj MF - pi \<le> pi * (4 / (real_of_int (14 * MF + 1))\<^sup>2)"
proof -
  define x where "x = rstep MF / 2"
  define q where "q = x * cos x / sin x"
  note r = rstep_range [OF assms]
  have x: "0 < x" "x < pi / 2" using r by (simp_all add: x_def)
  have q: "cos x \<le> q" "q \<le> 1" using cot_bounds [OF x] by (simp_all add: q_def)
  define D where "D = real_of_int (14 * MF + 1)"
  have D: "0 < D" using assms by (simp add: D_def)
  have "x = (pi / 2) / D" by (simp add: x_def rstep_def D_def)
  also have "\<dots> \<le> 2 / D"
    using D pi_less_4 by (intro divide_right_mono) simp_all
  finally have xb: "x \<le> 2 / D" .
  have "x\<^sup>2 \<le> (2 / D)\<^sup>2"
    using xb x(1) by (intro power_mono) simp_all
  then have "x\<^sup>2 \<le> 4 / D\<^sup>2" by (simp add: power_divide)
  then have x2: "x\<^sup>2 \<le> 4 / (real_of_int (14 * MF + 1))\<^sup>2" unfolding D_def .
  have co: "closedOmega MF = 2 * pi * (1 - cos x + q)"
    by (simp add: closedOmega_def Let_def x_def q_def)
  have cp: "closedProj MF = pi * ((sin x)\<^sup>2 + q)"
    by (simp add: closedProj_def Let_def x_def q_def)
  have e1: "closedOmega MF - 2 * pi = 2 * pi * (q - cos x)" unfolding co by (simp add: algebra_simps)
  show "0 \<le> closedOmega MF - 2 * pi" unfolding e1 using q(1) by simp
  have "q - cos x \<le> 1 - cos x" using q(2) by simp
  also have "\<dots> \<le> x\<^sup>2 / 2" by (rule one_minus_cos_le)
  also have "\<dots> \<le> x\<^sup>2" by simp
  also note x2
  finally show "closedOmega MF - 2 * pi \<le> 2 * pi * (4 / (real_of_int (14 * MF + 1))\<^sup>2)"
    unfolding e1 by (intro mult_left_mono) simp_all
  have e2: "closedProj MF - pi = pi * ((sin x)\<^sup>2 + q - 1)" unfolding cp by (simp add: algebra_simps)
  have "0 \<le> cos x * (1 - cos x)" using x by (intro mult_nonneg_nonneg cos_ge_zero) simp_all
  also have "\<dots> = (sin x)\<^sup>2 + cos x - 1" by (simp add: sin_squared_eq power2_eq_square algebra_simps)
  also have "\<dots> \<le> (sin x)\<^sup>2 + q - 1" using q(1) by simp
  finally show "0 \<le> closedProj MF - pi" unfolding e2 by simp
  have "(sin x)\<^sup>2 + q - 1 \<le> (sin x)\<^sup>2" using q(2) by simp
  also have "\<dots> \<le> x\<^sup>2" by (rule sin_squared_le)
  also note x2
  finally show "closedProj MF - pi \<le> pi * (4 / (real_of_int (14 * MF + 1))\<^sup>2)"
    unfolding e2 by (intro mult_left_mono) simp_all
qed

lemma error_small:
  assumes "8 \<le> MF"
  shows "4 / (real_of_int (14 * MF + 1))\<^sup>2 < 1 / 100"
proof -
  have "113 \<le> real_of_int (14 * MF + 1)" using assms by simp
  then have "113\<^sup>2 \<le> (real_of_int (14 * MF + 1))\<^sup>2" by (intro power_mono) simp_all
  then have "400 < (real_of_int (14 * MF + 1))\<^sup>2" by simp
  moreover have "0 < (real_of_int (14 * MF + 1))\<^sup>2" using assms by simp
  ultimately have "4 / (real_of_int (14 * MF + 1))\<^sup>2 < 4 / 400"
    by (intro divide_strict_left_mono mult_pos_pos) simp_all
  then show ?thesis by simp
qed

lemma error_tendsto: "(\<lambda>n. c * (4 / (real_of_int (14 * int n + 1))\<^sup>2)) \<longlonglongrightarrow> 0"
proof (rule tendsto_sandwich [where f = "\<lambda>n. - (\<bar>c\<bar> * 4 * inverse (real n))" and h = "\<lambda>n. \<bar>c\<bar> * 4 * inverse (real n)"])
  have b: "4 / (real_of_int (14 * int n + 1))\<^sup>2 \<le> 4 * inverse (real n)" if "1 \<le> n" for n
  proof -
    have "real n \<le> real_of_int (14 * int n + 1)" by simp
    also have "\<dots> \<le> (real_of_int (14 * int n + 1))\<^sup>2"
      by (intro self_le_power) simp_all
    finally have "inverse ((real_of_int (14 * int n + 1))\<^sup>2) \<le> inverse (real n)"
      using that by (intro le_imp_inverse_le) simp_all
    then show ?thesis by (simp add: divide_inverse)
  qed
  have a: "\<bar>c * (4 / (real_of_int (14 * int n + 1))\<^sup>2)\<bar> \<le> \<bar>c\<bar> * 4 * inverse (real n)" if "1 \<le> n" for n
  proof -
    have "\<bar>c * (4 / (real_of_int (14 * int n + 1))\<^sup>2)\<bar> = \<bar>c\<bar> * (4 / (real_of_int (14 * int n + 1))\<^sup>2)"
      by (simp add: abs_mult)
    also have "\<dots> \<le> \<bar>c\<bar> * (4 * inverse (real n))"
      using b [OF that] by (intro mult_left_mono) simp_all
    finally show ?thesis by simp
  qed
  have lo: "- (\<bar>c\<bar> * 4 * inverse (real n)) \<le> c * (4 / (real_of_int (14 * int n + 1))\<^sup>2)" if "1 \<le> n" for n
    using a [OF that] unfolding abs_le_iff by linarith
  have hi: "c * (4 / (real_of_int (14 * int n + 1))\<^sup>2) \<le> \<bar>c\<bar> * 4 * inverse (real n)" if "1 \<le> n" for n
    using a [OF that] unfolding abs_le_iff by linarith
  show "\<forall>\<^sub>F n in sequentially. - (\<bar>c\<bar> * 4 * inverse (real n)) \<le> c * (4 / (real_of_int (14 * int n + 1))\<^sup>2)"
    by (intro eventually_sequentiallyI [of 1]) (rule lo)
  show "\<forall>\<^sub>F n in sequentially. c * (4 / (real_of_int (14 * int n + 1))\<^sup>2) \<le> \<bar>c\<bar> * 4 * inverse (real n)"
    by (intro eventually_sequentiallyI [of 1]) (rule hi)
  have "(\<lambda>n. \<bar>c\<bar> * 4 * inverse (real n)) \<longlonglongrightarrow> \<bar>c\<bar> * 4 * 0"
    by (intro tendsto_mult_left lim_inverse_n)
  then show "(\<lambda>n. \<bar>c\<bar> * 4 * inverse (real n)) \<longlonglongrightarrow> 0" by simp
  then have "(\<lambda>n. - (\<bar>c\<bar> * 4 * inverse (real n))) \<longlonglongrightarrow> - 0" by (rule tendsto_minus)
  then show "(\<lambda>n. - (\<bar>c\<bar> * 4 * inverse (real n))) \<longlonglongrightarrow> 0" by simp
qed

lemma closed_tendsto:
  "(\<lambda>n. closedOmega (int n)) \<longlonglongrightarrow> 2 * pi"
  "(\<lambda>n. closedProj (int n)) \<longlonglongrightarrow> pi"
proof -
  have e1: "(\<lambda>n. 2 * pi + 2 * pi * (4 / (real_of_int (14 * int n + 1))\<^sup>2)) \<longlonglongrightarrow> 2 * pi + 0"
    by (intro tendsto_add tendsto_const error_tendsto)
  have e2: "(\<lambda>n. pi + pi * (4 / (real_of_int (14 * int n + 1))\<^sup>2)) \<longlonglongrightarrow> pi + 0"
    by (intro tendsto_add tendsto_const error_tendsto)
  have b: "2 * pi \<le> closedOmega (int n) \<and>
      closedOmega (int n) \<le> 2 * pi + 2 * pi * (4 / (real_of_int (14 * int n + 1))\<^sup>2) \<and>
      pi \<le> closedProj (int n) \<and>
      closedProj (int n) \<le> pi + pi * (4 / (real_of_int (14 * int n + 1))\<^sup>2)" if "1 \<le> n" for n
  proof -
    have "1 \<le> int n" using that by simp
    from closed_errors [OF this] show ?thesis by linarith
  qed
  show "(\<lambda>n. closedOmega (int n)) \<longlonglongrightarrow> 2 * pi"
  proof (rule tendsto_sandwich [where f = "\<lambda>n. 2 * pi"
        and h = "\<lambda>n. 2 * pi + 2 * pi * (4 / (real_of_int (14 * int n + 1))\<^sup>2)"])
    show "\<forall>\<^sub>F n in sequentially. 2 * pi \<le> closedOmega (int n)"
      using b by (intro eventually_sequentiallyI [of 1]) blast
    show "\<forall>\<^sub>F n in sequentially. closedOmega (int n) \<le> 2 * pi + 2 * pi * (4 / (real_of_int (14 * int n + 1))\<^sup>2)"
      using b by (intro eventually_sequentiallyI [of 1]) blast
    show "(\<lambda>n. 2 * pi) \<longlonglongrightarrow> 2 * pi" by (rule tendsto_const)
    show "(\<lambda>n. 2 * pi + 2 * pi * (4 / (real_of_int (14 * int n + 1))\<^sup>2)) \<longlonglongrightarrow> 2 * pi"
      using e1 by simp
  qed
  show "(\<lambda>n. closedProj (int n)) \<longlonglongrightarrow> pi"
  proof (rule tendsto_sandwich [where f = "\<lambda>n. pi"
        and h = "\<lambda>n. pi + pi * (4 / (real_of_int (14 * int n + 1))\<^sup>2)"])
    show "\<forall>\<^sub>F n in sequentially. pi \<le> closedProj (int n)"
      using b by (intro eventually_sequentiallyI [of 1]) blast
    show "\<forall>\<^sub>F n in sequentially. closedProj (int n) \<le> pi + pi * (4 / (real_of_int (14 * int n + 1))\<^sup>2)"
      using b by (intro eventually_sequentiallyI [of 1]) blast
    show "(\<lambda>n. pi) \<longlonglongrightarrow> pi" by (rule tendsto_const)
    show "(\<lambda>n. pi + pi * (4 / (real_of_int (14 * int n + 1))\<^sup>2)) \<longlonglongrightarrow> pi"
      using e2 by simp
  qed
qed

lemma closed_relative_error:
  assumes "8 \<le> MF"
  shows "\<bar>closedOmega MF - 2 * pi\<bar> / (2 * pi) < 1 / 100"
    and "\<bar>closedProj MF - pi\<bar> / pi < 1 / 100"
proof -
  define e where "e = 4 / (real_of_int (14 * MF + 1))\<^sup>2"
  have e: "e < 1 / 100" unfolding e_def by (rule error_small [OF assms])
  have "1 \<le> MF" using assms by simp
  from closed_errors [OF this]
  have b: "0 \<le> closedOmega MF - 2 * pi" "closedOmega MF - 2 * pi \<le> 2 * pi * e"
    "0 \<le> closedProj MF - pi" "closedProj MF - pi \<le> pi * e"
    unfolding e_def by simp_all
  have "\<bar>closedOmega MF - 2 * pi\<bar> / (2 * pi) \<le> (2 * pi * e) / (2 * pi)"
    using b(1,2) by (intro divide_right_mono) simp_all
  also have "\<dots> = e" by simp
  finally have "\<bar>closedOmega MF - 2 * pi\<bar> / (2 * pi) \<le> e" .
  then show "\<bar>closedOmega MF - 2 * pi\<bar> / (2 * pi) < 1 / 100" using e by (rule le_less_trans)
  have "\<bar>closedProj MF - pi\<bar> / pi \<le> (pi * e) / pi"
    using b(3,4) by (intro divide_right_mono) simp_all
  also have "\<dots> = e" by simp
  finally have "\<bar>closedProj MF - pi\<bar> / pi \<le> e" .
  then show "\<bar>closedProj MF - pi\<bar> / pi < 1 / 100" using e by (rule le_less_trans)
qed

text \<open>
  C7. For every subdivision factor \<open>MF \<ge> 1\<close> the function \<open>reinhartSolidAngles\<close> returns
  its two arrays, and the sum of \<open>dOmega\<close> and the sum of \<open>dOmega * cosOmega\<close> over all bins
  converge to \<open>2 * pi\<close> and to \<open>pi\<close> as \<open>MF\<close> grows; from \<open>MF = 8\<close> on both relative errors
  are below one percent.
\<close>

theorem solid_angle_convergence:
  "\<exists>S P. (\<forall>MF\<ge>1. sumOmega MF = Inr (S MF) \<and> sumProjOmega MF = Inr (P MF)) \<and>
     (\<lambda>n. S (int n)) \<longlonglongrightarrow> 2 * pi \<and>
     (\<lambda>n. P (int n)) \<longlonglongrightarrow> pi \<and>
     (\<forall>MF\<ge>8. \<bar>S MF - 2 * pi\<bar> / (2 * pi) < 1 / 100 \<and> \<bar>P MF - pi\<bar> / pi < 1 / 100)"
proof (rule exI [of _ closedOmega], rule exI [of _ closedProj], intro conjI allI impI)
  fix MF :: int assume "1 \<le> MF"
  then show "sumOmega MF = Inr (closedOmega MF)" by (rule sumOmega_closed)
next
  fix MF :: int assume "1 \<le> MF"
  then show "sumProjOmega MF = Inr (closedProj MF)" by (rule sumProjOmega_closed)
next
  show "(\<lambda>n. closedOmega (int n)) \<longlonglongrightarrow> 2 * pi" by (rule closed_tendsto)
next
  show "(\<lambda>n. closedProj (int n)) \<longlonglongrightarrow> pi" by (rule closed_tendsto)
next
  fix MF :: int assume "8 \<le> MF"
  then show "\<bar>closedOmega MF - 2 * pi\<bar> / (2 * pi) < 1 / 100" by (rule closed_relative_error)
next
  fix MF :: int assume "8 \<le> MF"
  then show "\<bar>closedProj MF - pi\<bar> / pi < 1 / 100" by (rule closed_relative_error)
qed

theorem solid_angle_convergence_witness:
  "\<exists>s p. sumOmega 8 = Inr s \<and> sumProjOmega 8 = Inr p \<and>
     \<bar>s - 2 * pi\<bar> / (2 * pi) < 1 / 100 \<and> \<bar>p - pi\<bar> / pi < 1 / 100"
proof -
  from solid_angle_convergence obtain S P where
    a: "\<forall>MF\<ge>1. sumOmega MF = Inr (S MF) \<and> sumProjOmega MF = Inr (P MF)" and
    b: "\<forall>MF\<ge>8. \<bar>S MF - 2 * pi\<bar> / (2 * pi) < 1 / 100 \<and> \<bar>P MF - pi\<bar> / pi < 1 / 100"
    by blast
  have "(1::int) \<le> 8" "(8::int) \<le> 8" by simp_all
  with a b show ?thesis by blast
qed

section \<open>The round trip from pixel to index and back\<close>

lemma pix2Idx_3_9: "pix2Idx (3, 9) 5 = Inr 0"
  by (simp add: pix2Idx_def Let_def EPSILON_def segArea_top chordLen_top pyint_half_neg)

lemma pix2Idx_4_9: "pix2Idx (4, 9) 5 = Inr 0"
  by (simp add: pix2Idx_def Let_def EPSILON_def segArea_top chordLen_top pyint_half_neg)

lemma idx2Pix_0_5: "idx2Pix 0 5 = Inl RuntimeError \<or> idx2Pix 0 5 = Inr (Some (4, 9))"
proof (cases "newton (newton_f (0 - 1) 5) pi newton_df")
  case (Inl e)
  have "idx2Pix 0 5 = Inl RuntimeError"
    by (intro idx2Pix_raises [OF _ _ _ Inl]) simp_all
  then show ?thesis ..
next
  case (Inr p)
  have t: "4 * newton_tol \<le> 1 / 100" by (simp add: newton_tol_def)
  have "newton_f (0 - 1) 5 (- (6 / 5)) = - (2 / 25) - sin (6 / 5) + 6 / 5" by (simp add: newton_f_def)
  then have lo: "4 * newton_tol < newton_f (0 - 1) 5 (- (6 / 5))"
    using t sin_le_one [of "6 / 5 :: real"] by linarith
  have "newton_f (0 - 1) 5 0 = - (2 / 25)" by (simp add: newton_f_def)
  then have hi: "newton_f (0 - 1) 5 0 < - (4 * newton_tol)" using t by linarith
  note b = newton_located [OF Inr lo hi]
  have "idx2Pix 0 5 = Inr (Some (0 + 4, 9))"
    using b by (intro idx2Pix_5_top [OF Inr]) simp_all
  then show ?thesis by simp
qed

text \<open>
  C1. The pixels \<open>(3, 9)\<close> and \<open>(4, 9)\<close> of an image of radius 5 are the two leftmost
  pixels of the top row of the circle. \<open>pix2Idx\<close> maps both to the index 0, because
  \<open>int()\<close> truncates \<open>-0.5\<close> and \<open>0.5\<close> alike to 0. \<open>idx2Pix(0, 5)\<close> returns the pixel
  \<open>(4, 9)\<close>, unless the solver raises: the round trip fails for the pixel \<open>(3, 9)\<close>
  inside the circle.
\<close>

theorem pix2Idx_round_trip_fails:
  "pix2Idx (3, 9) 5 = Inr 0 \<and> pix2Idx (4, 9) 5 = Inr 0
   \<and> (idx2Pix 0 5 = Inl RuntimeError \<or> idx2Pix 0 5 = Inr (Some (4, 9)))"
  using pix2Idx_3_9 pix2Idx_4_9 idx2Pix_0_5 by (intro conjI)

section \<open>The range of the pixel index\<close>

lemma pyint_le: "real_of_int (pyint z) \<le> max z 0"
proof (cases "0 \<le> z")
  case True
  then show ?thesis by (simp add: pyint_def)
next
  case False
  then have "\<lceil>z\<rceil> \<le> 0" by (simp add: ceiling_le_iff)
  then show ?thesis using False by (simp add: pyint_def)
qed

lemma arccos_lower:
  assumes "- 1 \<le> x" "x \<le> 1"
  shows "sqrt (2 * (1 + x)) \<le> pi - arccos x"
proof -
  define t where "t = pi - arccos x"
  have t: "0 \<le> t" "t \<le> pi"
    using arccos_lbound [OF assms] arccos_ubound [OF assms] by (simp_all add: t_def)
  have "cos t = - cos (arccos x)" by (simp add: t_def)
  then have c: "cos t = - x" using assms by simp
  define s where "s = sin (t / 2)"
  have s: "0 \<le> s" unfolding s_def using t by (intro sin_ge_zero) simp_all
  have "cos (2 * (t / 2)) = 1 - 2 * (sin (t / 2))\<^sup>2" by (rule cos_double_sin)
  then have "2 * s\<^sup>2 = 1 + x" using c by (simp add: s_def)
  then have "2 * (1 + x) = (2 * s)\<^sup>2" by (simp add: power2_eq_square)
  then have "sqrt (2 * (1 + x)) = 2 * s" using s by (simp add: real_sqrt_unique)
  moreover have "s \<le> t / 2" unfolding s_def using t by (intro sin_x_le_x) simp
  ultimately show ?thesis by (simp add: t_def)
qed

lemma segArea_complement:
  assumes "1 \<le> r" "- r \<le> h" "h \<le> r"
  shows "\<exists>A. segArea h r = Inr A \<and> 0 \<le> A \<and>
           real_of_int r * sqrt (2 * real_of_int r * (real_of_int r + real_of_int h))
             + real_of_int h * sqrt ((real_of_int r)\<^sup>2 - (real_of_int h)\<^sup>2)
           \<le> pi * (real_of_int r)\<^sup>2 - A"
proof -
  define R where "R = real_of_int r"
  define H where "H = real_of_int h"
  define x where "x = H / R"
  have R: "1 \<le> R" "0 < R" using assms(1) by (simp_all add: R_def)
  have x: "- 1 \<le> x" "x \<le> 1" using assms R by (simp_all add: x_def R_def H_def field_simps)
  have Hx: "H = R * x" using R by (simp add: x_def)
  define A where "A = 0.5 * R\<^sup>2 * (2 * arccos x - sin (2 * arccos x))"
  have seg: "segArea h r = Inr A"
    using segArea_in [OF assms] by (simp add: A_def x_def R_def H_def)
  have "sin (2 * arccos x) \<le> 2 * arccos x"
    using arccos_lbound [OF x] by (intro sin_x_le_x) simp
  then have A0: "0 \<le> A" by (simp add: A_def)
  have sa: "sin (arccos x) = sqrt (1 - x\<^sup>2)" using x by (rule sin_arccos)
  have "sin (2 * arccos x) = 2 * sqrt (1 - x\<^sup>2) * x"
    using x by (simp add: sin_double sa)
  then have B: "pi * R\<^sup>2 - A = R\<^sup>2 * (pi - arccos x) + R\<^sup>2 * (x * sqrt (1 - x\<^sup>2))"
    by (simp add: A_def algebra_simps)
  have q1: "R * sqrt (2 * R * (R + H)) = R\<^sup>2 * sqrt (2 * (1 + x))"
  proof -
    have "2 * R * (R + H) = R\<^sup>2 * (2 * (1 + x))"
      by (simp add: Hx power2_eq_square algebra_simps)
    then have "sqrt (2 * R * (R + H)) = R * sqrt (2 * (1 + x))"
      using R by (simp add: real_sqrt_mult)
    then show ?thesis by (simp add: power2_eq_square)
  qed
  have q2: "H * sqrt (R\<^sup>2 - H\<^sup>2) = R\<^sup>2 * (x * sqrt (1 - x\<^sup>2))"
  proof -
    have "R\<^sup>2 - H\<^sup>2 = R\<^sup>2 * (1 - x\<^sup>2)"
      by (simp add: Hx power2_eq_square algebra_simps)
    then have "sqrt (R\<^sup>2 - H\<^sup>2) = R * sqrt (1 - x\<^sup>2)"
      using R by (simp add: real_sqrt_mult)
    then show ?thesis by (simp add: Hx power2_eq_square)
  qed
  have "R\<^sup>2 * sqrt (2 * (1 + x)) \<le> R\<^sup>2 * (pi - arccos x)"
    using arccos_lower [OF x] by (intro mult_left_mono) simp_all
  then have "R * sqrt (2 * R * (R + H)) + H * sqrt (R\<^sup>2 - H\<^sup>2) \<le> pi * R\<^sup>2 - A"
    unfolding q1 q2 B by simp
  with seg A0 show ?thesis unfolding R_def H_def by blast
qed

lemma inside_bounds:
  fixes r u v :: int
  assumes "1 \<le> r" "u\<^sup>2 + v\<^sup>2 < r\<^sup>2"
  shows "\<bar>u\<bar> \<le> r - 1" "\<bar>v\<bar> \<le> r - 1"
proof -
  have "u\<^sup>2 \<le> u\<^sup>2 + v\<^sup>2" by simp
  then have "u\<^sup>2 < r\<^sup>2" using assms(2) by (rule le_less_trans)
  then have "\<bar>u\<bar>\<^sup>2 < r\<^sup>2" by simp
  then have "\<bar>u\<bar> < r" by (rule power2_less_imp_less) (use assms(1) in simp)
  then show "\<bar>u\<bar> \<le> r - 1" by simp
  have "v\<^sup>2 \<le> u\<^sup>2 + v\<^sup>2" by simp
  then have "v\<^sup>2 < r\<^sup>2" using assms(2) by (rule le_less_trans)
  then have "\<bar>v\<bar>\<^sup>2 < r\<^sup>2" by simp
  then have "\<bar>v\<bar> < r" by (rule power2_less_imp_less) (use assms(1) in simp)
  then show "\<bar>v\<bar> \<le> r - 1" by simp
qed

text \<open>The rows in the lower half of the index range (\<open>v \<ge> 0\<close>).\<close>

lemma row_bound_upper:
  fixes R H S U :: real
  assumes "2 \<le> R" "1 \<le> H" "0 \<le> S" "U \<le> R - 1"
  shows "S + U + 5 / 2 \<le> R * sqrt (2 * R * (R + H)) + H * S"
proof -
  have "R\<^sup>2 \<le> 2 * R * (R + H)"
  proof -
    have "0 \<le> R * R" "0 \<le> R * H" using assms by simp_all
    then show ?thesis by (simp add: power2_eq_square algebra_simps)
  qed
  then have "R \<le> sqrt (2 * R * (R + H))" by (rule real_le_rsqrt)
  then have "R * R \<le> R * sqrt (2 * R * (R + H))" using assms(1) by (intro mult_left_mono) simp_all
  moreover have "2 * R \<le> R * R" using assms(1) by (intro mult_right_mono) simp_all
  moreover have "1 * S \<le> H * S" using assms(2,3) by (intro mult_right_mono)
  ultimately show ?thesis using assms(1,4) by linarith
qed

text \<open>The rows with \<open>v < 0\<close>, at least three rows below the top: \<open>d = R + H \<ge> 3\<close>.\<close>

lemma row_bound_inner:
  fixes R H S U :: real
  assumes "H \<le> 0" "3 \<le> R + H" "0 \<le> S" "S\<^sup>2 = R\<^sup>2 - H\<^sup>2" "0 \<le> U" "U\<^sup>2 \<le> R\<^sup>2 - (H - 1)\<^sup>2"
  shows "S + U + 5 / 2 \<le> R * sqrt (2 * R * (R + H)) + H * S"
proof -
  define Q where "Q = sqrt (2 * R * (R + H))"
  have R: "3 \<le> R" using assms(1,2) by simp
  have RH: "0 \<le> R * (R + H)" using R assms(2) by (intro mult_nonneg_nonneg) simp_all
  have "3 * 3 \<le> R * (R + H)" using R assms(2) by (intro mult_mono) simp_all
  then have big: "(5 / 2)\<^sup>2 \<le> 2 * R * (R + H)" by (simp add: power2_eq_square)
  then have Q52: "5 / 2 \<le> Q" unfolding Q_def by (rule real_le_rsqrt)
  have "S\<^sup>2 \<le> 2 * R * (R + H)"
  proof -
    have "0 \<le> (R + H)\<^sup>2" by simp
    then show ?thesis unfolding assms(4) by (simp add: power2_eq_square algebra_simps)
  qed
  then have SQ: "S \<le> Q" unfolding Q_def by (rule real_le_rsqrt)
  have "U\<^sup>2 \<le> 2 * R * (R + H)"
  proof -
    have "0 \<le> (R + H)\<^sup>2" by simp
    then have "R\<^sup>2 - (H - 1)\<^sup>2 \<le> 2 * R * (R + H)"
      using assms(1) by (simp add: power2_eq_square algebra_simps)
    with assms(6) show ?thesis by linarith
  qed
  then have UQ: "U \<le> Q" unfolding Q_def by (rule real_le_rsqrt)
  have a: "(1 - H) * S \<le> (1 - H) * Q" using SQ assms(1) by (intro mult_left_mono) simp_all
  have b: "1 * Q \<le> (R + H - 2) * Q" using Q52 assms(2) by (intro mult_right_mono) simp_all
  have "S + U + 5 / 2 \<le> S + Q + (R + H - 2) * Q" using UQ Q52 b by linarith
  also have "\<dots> = S + R * Q - (1 - H) * Q" by (simp add: algebra_simps)
  also have "\<dots> \<le> S + R * Q - (1 - H) * S" using a by simp
  also have "\<dots> = R * Q + H * S" by (simp add: algebra_simps)
  finally show ?thesis unfolding Q_def .
qed

text \<open>The second row from the top, \<open>R + H = 2\<close>, for the radii 2 and 3 and from 4 on.\<close>

lemma row_bound_top_2:
  fixes S U :: real
  assumes "0 \<le> S" "S\<^sup>2 = 4" "U \<le> 1"
  shows "S + U + 5 / 2 \<le> 2 * sqrt 8 + 0 * S"
proof -
  have "S\<^sup>2 \<le> 2\<^sup>2" using assms(2) by simp
  then have "S \<le> 2" by (rule power2_le_imp_le) simp
  moreover have "(11 / 4)\<^sup>2 \<le> (8::real)" by (simp add: power2_eq_square)
  then have "11 / 4 \<le> sqrt 8" by (rule real_le_rsqrt)
  ultimately show ?thesis using assms(3) by linarith
qed

lemma row_bound_top_3:
  fixes S U :: real
  assumes "0 \<le> S" "S\<^sup>2 = 8" "U \<le> 2"
  shows "S + U + 5 / 2 \<le> 3 * sqrt 12 + (- 1) * S"
proof -
  have "S\<^sup>2 \<le> (283 / 100)\<^sup>2" using assms(2) by (simp add: power2_eq_square)
  then have "S \<le> 283 / 100" by (rule power2_le_imp_le) simp
  moreover have "(346 / 100)\<^sup>2 \<le> (12::real)" by (simp add: power2_eq_square)
  then have "346 / 100 \<le> sqrt 12" by (rule real_le_rsqrt)
  ultimately show ?thesis using assms(3) by linarith
qed

lemma row_bound_top:
  fixes R S U :: real
  assumes "4 \<le> R" "0 \<le> S" "S\<^sup>2 = 4 * R - 4" "U\<^sup>2 \<le> 2 * R - 1"
  shows "S + U + 5 / 2 \<le> R * sqrt (4 * R) + (2 - R) * S"
proof -
  define s where "s = sqrt R"
  define w where "w = 1 / s"
  have "2\<^sup>2 \<le> R" using assms(1) by simp
  then have s2: "2 \<le> s" unfolding s_def by (rule real_le_rsqrt)
  have ss: "s * s = R" unfolding s_def using assms(1) by simp
  have sw: "s * w = 1" unfolding w_def using s2 by simp
  have w: "0 < w" "w \<le> 1 / 2" unfolding w_def using s2 by (simp_all add: field_simps)
  have Rw: "R * w = s" using sw by (simp add: ss [symmetric])
  have "(2 * s)\<^sup>2 = 4 * R" by (simp add: power2_eq_square ss)
  then have Q: "sqrt (4 * R) = 2 * s" using s2 by (intro real_sqrt_unique) simp_all
  have "(2 * s - w)\<^sup>2 = 4 * (s * s) - 4 * (s * w) + w * w"
    by (simp add: power2_eq_square algebra_simps)
  also have "\<dots> = 4 * R - 4 + w * w" by (simp only: ss sw)
  finally have "S\<^sup>2 \<le> (2 * s - w)\<^sup>2" unfolding assms(3) by simp
  then have S: "S \<le> 2 * s - w" using s2 w by (intro power2_le_imp_le [of S]) simp_all
  have "(1415 / 1000 * s)\<^sup>2 = (2002225 / 1000000) * (s * s)"
    by (simp add: power2_eq_square)
  then have "U\<^sup>2 \<le> (1415 / 1000 * s)\<^sup>2" using assms(1,4) unfolding ss by simp
  then have U: "U \<le> 1415 / 1000 * s" using s2 by (intro power2_le_imp_le [of U]) simp_all
  have "(R - 1) * S \<le> (R - 1) * (2 * s - w)" using S assms(1) by (intro mult_left_mono) simp_all
  also have "\<dots> = 2 * (R * s) - R * w - 2 * s + w" by (simp add: algebra_simps)
  also have "\<dots> = 2 * (R * s) - 3 * s + w" unfolding Rw by simp
  finally have "(R - 1) * S \<le> 2 * (R * s) - 3 * s + w" .
  moreover have "R * sqrt (4 * R) + (2 - R) * S = 2 * (R * s) - (R - 1) * S + S"
    unfolding Q by (simp add: algebra_simps)
  ultimately show ?thesis using U w s2 by linarith
qed

text \<open>All rows of a circle of radius at least 2.\<close>

lemma row_bound:
  fixes r u v :: int
  assumes "2 \<le> r" "u\<^sup>2 + v\<^sup>2 < r\<^sup>2"
  shows "sqrt ((real_of_int r)\<^sup>2 - (real_of_int (v + 1))\<^sup>2) + \<bar>real_of_int u\<bar> + 5 / 2
         \<le> real_of_int r * sqrt (2 * real_of_int r * (real_of_int r + real_of_int (v + 1)))
           + real_of_int (v + 1) * sqrt ((real_of_int r)\<^sup>2 - (real_of_int (v + 1))\<^sup>2)"
proof -
  define R where "R = real_of_int r"
  define H where "H = real_of_int (v + 1)"
  define U where "U = \<bar>real_of_int u\<bar>"
  define S where "S = sqrt (R\<^sup>2 - H\<^sup>2)"
  have r1: "1 \<le> r" using assms(1) by simp
  note b = inside_bounds [OF r1 assms(2)]
  have R2: "2 \<le> R" using assms(1) by (simp add: R_def)
  have U0: "0 \<le> U" by (simp add: U_def)
  have "real_of_int \<bar>u\<bar> \<le> real_of_int (r - 1)" using b(1) by (simp only: of_int_le_iff)
  then have U1: "U \<le> R - 1" by (simp add: U_def R_def)
  have "real_of_int \<bar>v + 1\<bar> \<le> real_of_int r" using b(2) by (simp only: of_int_le_iff)
  then have "\<bar>H\<bar> \<le> \<bar>R\<bar>" using R2 by (simp add: H_def R_def)
  then have "H\<^sup>2 \<le> R\<^sup>2" by (simp only: abs_le_square_iff)
  then have S2: "S\<^sup>2 = R\<^sup>2 - H\<^sup>2" and S0: "0 \<le> S" by (simp_all add: S_def)
  have "u\<^sup>2 + v\<^sup>2 + 1 \<le> r\<^sup>2" using assms(2) by simp
  then have "real_of_int (u\<^sup>2 + v\<^sup>2 + 1) \<le> real_of_int (r\<^sup>2)" by (simp only: of_int_le_iff)
  then have "U\<^sup>2 + (H - 1)\<^sup>2 + 1 \<le> R\<^sup>2" by (simp add: U_def H_def R_def)
  then have UU: "U\<^sup>2 \<le> R\<^sup>2 - (H - 1)\<^sup>2" by simp
  have goal: "S + U + 5 / 2 \<le> R * sqrt (2 * R * (R + H)) + H * S"
  proof (cases "0 \<le> v")
    case True
    then have "1 \<le> H" by (simp add: H_def)
    with R2 show ?thesis using S0 U1 by (rule row_bound_upper)
  next
    case neg: False
    then have H0: "H \<le> 0" by (simp add: H_def)
    have "2 \<le> r + (v + 1)" using b(2) by simp
    then consider "3 \<le> r + (v + 1)" | "r + (v + 1) = 2" by linarith
    then show ?thesis
    proof cases
      case 1
      then have "real_of_int 3 \<le> real_of_int (r + (v + 1))" by (simp only: of_int_le_iff)
      then have "3 \<le> R + H" by (simp add: R_def H_def)
      with H0 show ?thesis using S0 S2 U0 UU by (rule row_bound_inner)
    next
      case 2
      then have "real_of_int (v + 1) = real_of_int (2 - r)" by simp
      then have H: "H = 2 - R" by (simp add: H_def R_def)
      have SS: "S\<^sup>2 = 4 * R - 4" unfolding S2 H by (simp add: power2_eq_square algebra_simps)
      have UU': "U\<^sup>2 \<le> 2 * R - 1"
      proof -
        have "R\<^sup>2 - (H - 1)\<^sup>2 = 2 * R - 1" unfolding H by (simp add: power2_eq_square algebra_simps)
        with UU show ?thesis by simp
      qed
      consider "r = 2" | "r = 3" | "4 \<le> r" using assms(1) by linarith
      then show ?thesis
      proof cases
        case 1
        then have R: "R = 2" by (simp add: R_def)
        have "S + U + 5 / 2 \<le> 2 * sqrt 8 + 0 * S"
          using S0 SS U1 unfolding R by (intro row_bound_top_2) simp_all
        then show ?thesis unfolding H R by simp
      next
        case 2
        then have R: "R = 3" by (simp add: R_def)
        have "S + U + 5 / 2 \<le> 3 * sqrt 12 + (- 1) * S"
          using S0 SS U1 unfolding R by (intro row_bound_top_3) simp_all
        then show ?thesis unfolding H R by simp
      next
        case 3
        then have "4 \<le> R" by (simp add: R_def)
        then have "S + U + 5 / 2 \<le> R * sqrt (4 * R) + (2 - R) * S"
          using S0 SS UU' by (rule row_bound_top)
        moreover have "2 * R * (R + (2 - R)) = 4 * R" by simp
        ultimately show ?thesis unfolding H by simp
      qed
    qed
  qed
  then show ?thesis unfolding S_def U_def H_def R_def .
qed

lemma numIdx_floor: "0 \<le> r \<Longrightarrow> numIdx r = \<lfloor>pi * (real_of_int r)\<^sup>2 + 1 / 2\<rfloor>"
  by (simp add: numIdx_def pyint_def)

lemma numIdx_ge_3:
  assumes "1 \<le> r"
  shows "3 \<le> numIdx r"
proof -
  have "1 \<le> (real_of_int r)\<^sup>2" using assms by simp
  then have "pi * 1 \<le> pi * (real_of_int r)\<^sup>2" by (intro mult_left_mono) simp_all
  then have "real_of_int 3 \<le> pi * (real_of_int r)\<^sup>2 + 1 / 2" using pi_gt_three by linarith
  then have "3 \<le> \<lfloor>pi * (real_of_int r)\<^sup>2 + 1 / 2\<rfloor>" by (simp only: le_floor_iff)
  then show ?thesis using assms by (simp add: numIdx_floor)
qed

text \<open>Inside the circle the area below the row of the pixel, which is what remains of
  the disc after the segment above it, exceeds the offset in the row by 5/2.\<close>

lemma inside_room:
  assumes "1 \<le> r" "u\<^sup>2 + v\<^sup>2 < r\<^sup>2"
  shows "\<exists>A. segArea (v + 1) r = Inr A \<and> 0 \<le> A \<and>
           sqrt ((real_of_int r)\<^sup>2 - (real_of_int (v + 1))\<^sup>2) + \<bar>real_of_int u\<bar> + 5 / 2
           \<le> pi * (real_of_int r)\<^sup>2 - A"
proof (cases "r = 1")
  case True
  have "\<bar>u\<bar> \<le> 0" "\<bar>v\<bar> \<le> 0" using inside_bounds [OF assms] True by simp_all
  then have "u = 0" "v = 0" by simp_all
  then show ?thesis using True pi_gt_three by (simp add: segArea_def alpha_def)
next
  case False
  then have r: "2 \<le> r" using assms(1) by simp
  have "\<bar>v\<bar> \<le> r - 1" by (rule inside_bounds [OF assms])
  then have h: "- r \<le> v + 1" "v + 1 \<le> r" by simp_all
  from segArea_complement [OF assms(1) h] obtain A where
    A: "segArea (v + 1) r = Inr A" "0 \<le> A"
       "real_of_int r * sqrt (2 * real_of_int r * (real_of_int r + real_of_int (v + 1)))
          + real_of_int (v + 1) * sqrt ((real_of_int r)\<^sup>2 - (real_of_int (v + 1))\<^sup>2)
        \<le> pi * (real_of_int r)\<^sup>2 - A"
    by blast
  from row_bound [OF r assms(2)] A(3)
  have "sqrt ((real_of_int r)\<^sup>2 - (real_of_int (v + 1))\<^sup>2) + \<bar>real_of_int u\<bar> + 5 / 2
          \<le> pi * (real_of_int r)\<^sup>2 - A"
    by (rule order_trans)
  with A(1,2) show ?thesis by blast
qed

lemma pix2Idx_range:
  assumes "1 \<le> r"
  shows "\<exists>idx. pix2Idx (x, y) r = Inr idx \<and> idx < numIdx r"
proof -
  define u where "u = x - r"
  define v where "v = y - r"
  define R where "R = real_of_int r"
  show ?thesis
  proof (cases "(real_of_int r)\<^sup>2 < real_of_int (u\<^sup>2 + v\<^sup>2) + EPSILON")
    case True
    then have "pix2Idx (x, y) r = Inr (- 1)"
      unfolding pix2Idx_def Let_def prod.case u_def [symmetric] v_def [symmetric]
      by simp
    moreover have "- 1 < numIdx r" using numIdx_ge_3 [OF assms] by simp
    ultimately show ?thesis by blast
  next
    case False
    then have "real_of_int (u\<^sup>2 + v\<^sup>2) < real_of_int (r\<^sup>2)" by (simp add: EPSILON_def)
    then have ins: "u\<^sup>2 + v\<^sup>2 < r\<^sup>2" by (simp only: of_int_less_iff)
    from inside_room [OF assms ins] obtain A where
      A: "segArea (v + 1) r = Inr A" "0 \<le> A"
         "sqrt (R\<^sup>2 - (real_of_int (v + 1))\<^sup>2) + \<bar>real_of_int u\<bar> + 5 / 2 \<le> pi * R\<^sup>2 - A"
      unfolding R_def by blast
    define S where "S = sqrt (R\<^sup>2 - (real_of_int (v + 1))\<^sup>2)"
    have "\<bar>v\<bar> \<le> r - 1" by (rule inside_bounds [OF assms ins])
    then have "\<bar>v + 1\<bar> \<le> \<bar>r\<bar>" by simp
    then have "(v + 1)\<^sup>2 \<le> r\<^sup>2" by (simp only: abs_le_square_iff)
    then have C: "chordLen (v + 1) r = Inr (2 * S)"
      using \<open>\<bar>v\<bar> \<le> r - 1\<close> by (simp add: chordLen_def S_def R_def)
    define idx where "idx = pyint (A + 0.5) + pyint (0.5 * (2 * S) + real_of_int u + 1.5)"
    have pix: "pix2Idx (x, y) r = Inr idx"
      unfolding pix2Idx_def Let_def prod.case u_def [symmetric] v_def [symmetric]
      using False by (simp add: A(1) C idx_def)
    have S0: "0 \<le> S"
    proof -
      have "real_of_int ((v + 1)\<^sup>2) \<le> real_of_int (r\<^sup>2)"
        using \<open>(v + 1)\<^sup>2 \<le> r\<^sup>2\<close> by (simp only: of_int_le_iff)
      then show ?thesis by (simp add: S_def R_def)
    qed
    have a: "real_of_int (pyint (A + 0.5)) \<le> A + 1 / 2"
      using pyint_le [of "A + 0.5"] A(2) by simp
    have "real_of_int (pyint (0.5 * (2 * S) + real_of_int u + 1.5)) \<le> max (S + real_of_int u + 3 / 2) 0"
      using pyint_le [of "0.5 * (2 * S) + real_of_int u + 1.5"] by simp
    also have "\<dots> \<le> pi * R\<^sup>2 - A - 1" using A(3) S0 unfolding S_def [symmetric] by (intro max.boundedI) linarith+
    finally have "real_of_int idx \<le> pi * R\<^sup>2 - 1 / 2" using a by (simp add: idx_def)
    then have "real_of_int (idx + 1) \<le> pi * R\<^sup>2 + 1 / 2" by simp
    then have "idx + 1 \<le> \<lfloor>pi * R\<^sup>2 + 1 / 2\<rfloor>" by (simp only: le_floor_iff)
    then have "idx < numIdx r" using assms by (simp add: numIdx_floor R_def)
    with pix show ?thesis by blast
  qed
qed

text \<open>
  C10. The pixels \<open>(5, 17)\<close> and \<open>(6, 17)\<close> of an image of radius 9 lie inside the
  circle, in its top row (\<open>u = -4\<close> and \<open>u = -3\<close>, \<open>v = 8\<close>, \<open>16 + 64 < 81\<close>): the test
  of \<open>pix2Idx\<close> for a pixel outside the radius is false for them. The segment above the
  row and the chord are both 0 there, and \<open>int()\<close> truncates \<open>-4 + 1.5\<close> to \<open>-2\<close> and
  \<open>-3 + 1.5\<close> to \<open>-1\<close>. So \<open>pix2Idx\<close> returns a negative index for a pixel inside the
  circle, for \<open>(6, 17)\<close> the very value that marks a pixel outside. By \<open>pix2Idx_range\<close>
  the index is always below the size of the bin arrays.
\<close>

theorem pix2Idx_negative_inside:
  "\<not> (real_of_int 9)\<^sup>2 < real_of_int ((5 - 9)\<^sup>2 + (17 - 9)\<^sup>2) + EPSILON
   \<and> pix2Idx (5, 17) 9 = Inr (- 2)
   \<and> \<not> (real_of_int 9)\<^sup>2 < real_of_int ((6 - 9)\<^sup>2 + (17 - 9)\<^sup>2) + EPSILON
   \<and> pix2Idx (6, 17) 9 = Inr (- 1)"
proof -
  have "pyint (- (5 / 2)) = - 2" "pyint (- (3 / 2)) = - 1"
    by (simp_all add: pyint_def ceiling_eq_iff)
  then show ?thesis
    by (simp add: pix2Idx_def Let_def EPSILON_def segArea_top chordLen_top pyint_half_neg)
qed

end
